theory Spec2Isabelle
  imports Complex_Main "HOL-Library.Multiset"
begin

section \<open>NumPy and Python primitives used by nina_helper\<close>

text \<open>
  The module works on NumPy arrays held in memory. A one-dimensional array is a list,
  Python and NumPy 64-bit integers are \<open>int\<close> (no claim depends on their overflow), a
  value of a narrower dtype is an \<open>int\<close> with the wrap-around of the dtype written out, and
  every exception the code can raise is a value of \<open>py_error\<close> returned on the left of a
  sum.
\<close>

datatype py_error = IndexError | ValueError | TypeError

text \<open>
  \<open>int(round(x / 2))\<close> for an integer \<open>x\<close> under Python 3: true division, then rounding
  of a half to the even neighbour.
\<close>

definition py_round_half :: "int \<Rightarrow> int" where
  "py_round_half x =
     (if even x then x div 2
      else if even (x div 2) then x div 2 else x div 2 + 1)"

text \<open>
  A value stored into an array of dtype int8 (\<open>astype('int8')\<close>, or an assignment into an
  int8 array under NumPy 1.x): reduced modulo 256 into \<open>-128..127\<close>.
\<close>

definition to_int8 :: "int \<Rightarrow> int" where
  "to_int8 v = (v + 128) mod 256 - 128"

text \<open>
  The integer dtypes a recording can store a label stream in, with their width and
  signedness. An array of dtype \<open>dt\<close> that receives the result of an in-place addition
  or an assigned value \<open>v\<close> holds \<open>np_wrap dt v\<close>: NumPy keeps the low bits of an
  out-of-range value and raises nothing.
\<close>

datatype np_dtype = UInt8 | Int8 | UInt16 | Int16 | UInt32 | Int32 | UInt64 | Int64

fun dtype_bits :: "np_dtype \<Rightarrow> nat" where
  "dtype_bits UInt8 = 8"
| "dtype_bits Int8 = 8"
| "dtype_bits UInt16 = 16"
| "dtype_bits Int16 = 16"
| "dtype_bits UInt32 = 32"
| "dtype_bits Int32 = 32"
| "dtype_bits UInt64 = 64"
| "dtype_bits Int64 = 64"

fun is_signed :: "np_dtype \<Rightarrow> bool" where
  "is_signed UInt8 \<longleftrightarrow> False"
| "is_signed Int8 \<longleftrightarrow> True"
| "is_signed UInt16 \<longleftrightarrow> False"
| "is_signed Int16 \<longleftrightarrow> True"
| "is_signed UInt32 \<longleftrightarrow> False"
| "is_signed Int32 \<longleftrightarrow> True"
| "is_signed UInt64 \<longleftrightarrow> False"
| "is_signed Int64 \<longleftrightarrow> True"

definition np_wrap :: "np_dtype \<Rightarrow> int \<Rightarrow> int" where
  "np_wrap dt v =
     (if is_signed dt
      then (v + 2 ^ (dtype_bits dt - 1)) mod 2 ^ dtype_bits dt - 2 ^ (dtype_bits dt - 1)
      else v mod 2 ^ dtype_bits dt)"

text \<open>A bound of a slice \<open>a[lo:hi]\<close> on an array of length \<open>n\<close>: negative bounds count
  from the end, and both ends are clipped to the array.\<close>

definition slice_bound :: "nat \<Rightarrow> int \<Rightarrow> nat" where
  "slice_bound n i = (if i < 0 then nat (max 0 (i + int n)) else min n (nat i))"

text \<open>\<open>a[lo:hi] = v\<close> for a scalar \<open>v\<close>.\<close>

definition slice_assign :: "'a list \<Rightarrow> int \<Rightarrow> int \<Rightarrow> 'a \<Rightarrow> 'a list" where
  "slice_assign xs lo hi v =
     (let l = slice_bound (length xs) lo; h = slice_bound (length xs) hi
      in if l < h then take l xs @ replicate (h - l) v @ drop h xs else xs)"

text \<open>\<open>np.where(np.diff(move))[0]\<close>: the positions \<open>i\<close> with \<open>move[i] \<noteq> move[i + 1]\<close>,
  ascending. The first argument is the position of the head of the list.\<close>

fun where_diff :: "nat \<Rightarrow> int list \<Rightarrow> int list" where
  "where_diff k (x # y # ys) =
     (if x \<noteq> y then int k # where_diff (Suc k) (y # ys) else where_diff (Suc k) (y # ys))"
| "where_diff k _ = []"

section \<open>Repetition segmenter\<close>

text \<open>
  The block \<open># Label repetitions using new block style: rest-move-rest regions\<close> is the
  same code in \<open>import_db1\<close>, \<open>import_db2\<close>, \<open>import_db3\<close> and both branches of
  \<open>import_subject\<close>; only the sample rate \<open>fs\<close> differs. \<open>segment\<close> is that block. The
  state of its \<open>for\<close> loop is a record of the variables the loop updates.
\<close>

record seg_state =
  s_last_end_idx :: int
  s_rep :: "int list"
  s_rep_regions :: "int list"
  s_nb_capped :: int
  s_cur_rep :: int

text \<open>The dictionary the import functions return.\<close>

record 'e nina_data =
  emg :: "'e list"
  rep :: "int list"
  move :: "int list"
  rep_regions :: "int list"
  nb_capped :: int

definition midpoint_idx :: "int list \<Rightarrow> nat \<Rightarrow> int" where
  "midpoint_idx move_regions i =
     py_round_half (move_regions ! (2 * (i + 1) - 1) + move_regions ! (2 * (i + 1))) + 1"

definition trailing_rest_samps :: "int list \<Rightarrow> nat \<Rightarrow> int" where
  "trailing_rest_samps move_regions i =
     midpoint_idx move_regions i - move_regions ! (2 * (i + 1) - 1)"

text \<open>
  One iteration of the loop body. \<open>rest_length_cap\<close> is an integer number of seconds, as
  documented, so \<open>int(round(rest_length_cap * fs))\<close> is the product itself. The reads of
  \<open>move_regions\<close> and the writes of \<open>rep_regions\<close> raise IndexError out of range.
\<close>

definition seg_step :: "int list \<Rightarrow> int \<Rightarrow> int \<Rightarrow> int \<Rightarrow> nat \<Rightarrow> seg_state \<Rightarrow> py_error + seg_state" where
  "seg_step move_regions rest_length_cap fs nb_unique_reps i st =
     (if 2 * (i + 1) < length move_regions \<and> 2 * i + 1 < length (s_rep_regions st) then
        let regions = (s_rep_regions st)[2 * i := s_last_end_idx st];
            st1 =
              (if trailing_rest_samps move_regions i \<le> rest_length_cap * fs then
                 st\<lparr>s_rep := slice_assign (s_rep st) (s_last_end_idx st)
                             (midpoint_idx move_regions i) (to_int8 (s_cur_rep st)),
                    s_last_end_idx := midpoint_idx move_regions i,
                    s_rep_regions := regions[2 * i + 1 := midpoint_idx move_regions i - 1]\<rparr>
               else
                 let rep_end_idx = move_regions ! (2 * (i + 1) - 1) + rest_length_cap * fs
                 in st\<lparr>s_rep := slice_assign (s_rep st) (s_last_end_idx st) rep_end_idx
                                (to_int8 (s_cur_rep st)),
                       s_last_end_idx := move_regions ! (2 * (i + 1)) - rest_length_cap * fs,
                       s_rep_regions := regions[2 * i + 1 := rep_end_idx - 1],
                       s_nb_capped := s_nb_capped st + 2\<rparr>)
        in Inr (st1\<lparr>s_cur_rep :=
                      (if s_cur_rep st1 + 1 > nb_unique_reps then 1 else s_cur_rep st1 + 1)\<rparr>)
      else Inl IndexError)"

fun seg_loop :: "int list \<Rightarrow> int \<Rightarrow> int \<Rightarrow> int \<Rightarrow> nat list \<Rightarrow> seg_state \<Rightarrow> py_error + seg_state" where
  "seg_loop move_regions rest_length_cap fs nb_unique_reps [] st = Inr st"
| "seg_loop move_regions rest_length_cap fs nb_unique_reps (i # is) st =
     (case seg_step move_regions rest_length_cap fs nb_unique_reps i st of
        Inl err \<Rightarrow> Inl err
      | Inr st' \<Rightarrow> seg_loop move_regions rest_length_cap fs nb_unique_reps is st')"

text \<open>
  The whole block. \<open>e\<close> is the signal (only its row count is used), \<open>raw_rep\<close> the
  concatenated raw repetition stream, \<open>mv\<close> the concatenated movement stream after
  \<open>astype('int8')\<close>. \<open>move_regions[0]\<close> raises on an empty table and \<open>rep_regions[-2]\<close> on
  a table of one entry.
\<close>

definition segment :: "int \<Rightarrow> 'e list \<Rightarrow> int list \<Rightarrow> int list \<Rightarrow> int \<Rightarrow> py_error + 'e nina_data" where
  "segment fs e raw_rep mv rest_length_cap =
     (let move_regions = where_diff 0 mv;
          m = length move_regions;
          nb_reps = py_round_half (int m)
      in if m = 0 then Inl IndexError
         else
           let nb_unique_reps = int (length (remdups raw_rep)) - 1;
               st0 = \<lparr>s_last_end_idx = py_round_half (move_regions ! 0),
                      s_rep = replicate (length raw_rep) 0,
                      s_rep_regions = replicate m 0,
                      s_nb_capped = 0,
                      s_cur_rep = 1\<rparr>
           in case seg_loop move_regions rest_length_cap fs nb_unique_reps
                     [0..<nat (nb_reps - 1)] st0 of
                Inl err \<Rightarrow> Inl err
              | Inr st \<Rightarrow>
                  let end_idx = py_round_half (int (length e) + last move_regions)
                  in if m < 2 then Inl IndexError
                     else Inr \<lparr>emg = e,
                               rep = slice_assign (s_rep st) (s_last_end_idx st) end_idx
                                       (to_int8 (s_cur_rep st)),
                               move = mv,
                               rep_regions =
                                 (s_rep_regions st)[m - 2 := s_last_end_idx st,
                                                    m - 1 := end_idx - 1],
                               nb_capped = s_nb_capped st\<rparr>)"

text \<open>
  Names for what the loop computes. Iteration \<open>i\<close> takes the \<open>else\<close> branch (the rest
  after block \<open>i\<close> is over the cap) when \<open>over_cap\<close> holds; \<open>loop_range\<close> is
  \<open>range(nb_reps - 1)\<close>; \<open>block_start\<close> is the value of \<open>last_end_idx\<close> when iteration
  \<open>i\<close> begins and \<open>block_end\<close> the value the iteration writes to
  \<open>rep_regions[2 * i + 1]\<close>. A movement stream is valid when its transitions come in
  pairs (into a gesture, back to rest) and there is at least one pair.
\<close>

definition over_cap :: "int list \<Rightarrow> int \<Rightarrow> int \<Rightarrow> nat \<Rightarrow> bool" where
  "over_cap move_regions rest_length_cap fs i \<longleftrightarrow>
     \<not> trailing_rest_samps move_regions i \<le> rest_length_cap * fs"

definition loop_range :: "int list \<Rightarrow> nat list" where
  "loop_range mv = [0..<nat (py_round_half (int (length (where_diff 0 mv))) - 1)]"

definition valid_move_stream :: "int list \<Rightarrow> bool" where
  "valid_move_stream mv \<longleftrightarrow>
     2 \<le> length (where_diff 0 mv) \<and> even (length (where_diff 0 mv))"

fun block_start :: "int list \<Rightarrow> int \<Rightarrow> int \<Rightarrow> nat \<Rightarrow> int" where
  "block_start move_regions rest_length_cap fs 0 = py_round_half (move_regions ! 0)"
| "block_start move_regions rest_length_cap fs (Suc i) =
     (if over_cap move_regions rest_length_cap fs i
      then move_regions ! (2 * (i + 1)) - rest_length_cap * fs
      else midpoint_idx move_regions i)"

definition block_end :: "int list \<Rightarrow> int \<Rightarrow> int \<Rightarrow> nat \<Rightarrow> int" where
  "block_end move_regions rest_length_cap fs i =
     (if over_cap move_regions rest_length_cap fs i
      then move_regions ! (2 * (i + 1) - 1) + rest_length_cap * fs - 1
      else midpoint_idx move_regions i - 1)"

text \<open>
  The cycle length of the claims: the number of distinct nonzero values of the raw
  repetition stream. The code counts \<open>np.unique(rep).shape[0] - 1\<close> instead.
\<close>

definition cycle_length :: "int list \<Rightarrow> int" where
  "cycle_length raw_rep = int (length (remdups (filter (\<lambda>x. x \<noteq> 0) raw_rep)))"

text \<open>The length of every block of a region table, \<open>rep_regions[2i+1] - rep_regions[2i] + 1\<close>.\<close>

definition block_lengths :: "int list \<Rightarrow> int list" where
  "block_lengths regions =
     map (\<lambda>i. regions ! (2 * i + 1) - regions ! (2 * i) + 1) [0..<length regions div 2]"

text \<open>
  The number of samples an over-cap iteration leaves unassigned: the positions from
  \<open>rep_end_idx\<close> up to, and without, the new \<open>last_end_idx\<close>. There is none when the
  new \<open>last_end_idx\<close> is not beyond \<open>rep_end_idx\<close>, and none in an iteration that does
  not truncate.
\<close>

definition truncation_gap :: "int list \<Rightarrow> int \<Rightarrow> int \<Rightarrow> nat \<Rightarrow> nat" where
  "truncation_gap move_regions rest_length_cap fs i =
     (if over_cap move_regions rest_length_cap fs i
      then nat ((move_regions ! (2 * (i + 1)) - rest_length_cap * fs)
                - (move_regions ! (2 * (i + 1) - 1) + rest_length_cap * fs))
      else 0)"

text \<open>
  The rest after block \<open>i\<close> is the samples after \<open>move_regions[2 * (i + 1) - 1]\<close> up to
  \<open>move_regions[2 * (i + 1)]\<close>. A truncated rest keeps \<open>rest_length_cap * fs\<close> samples
  on either side, which takes a rest of at least twice that many samples; \<open>caps_fit\<close>
  says that every rest the loop truncates is that long.
\<close>

definition caps_fit :: "int list \<Rightarrow> int \<Rightarrow> int \<Rightarrow> bool" where
  "caps_fit mv rest_length_cap fs \<longleftrightarrow>
     (\<forall>i \<in> set (loop_range mv).
        over_cap (where_diff 0 mv) rest_length_cap fs i \<longrightarrow>
        2 * (rest_length_cap * fs) \<le>
          where_diff 0 mv ! (2 * (i + 1)) - where_diff 0 mv ! (2 * (i + 1) - 1))"

text \<open>The loop invariant for the labels: every label written so far and the running
  repetition index are at most \<open>b\<close>, and the index is at least 1.\<close>

definition labels_within :: "int \<Rightarrow> seg_state \<Rightarrow> bool" where
  "labels_within b st \<longleftrightarrow>
     (\<forall>x \<in> set (s_rep st). x \<le> b) \<and> 1 \<le> s_cur_rep st \<and> s_cur_rep st \<le> b"

text \<open>
  The streams the recordings hold: every change of the movement label is to or from
  rest (label 0).
\<close>

fun rest_alternates :: "int list \<Rightarrow> bool" where
  "rest_alternates (x # y # ys) \<longleftrightarrow> (x = y \<or> x = 0 \<or> y = 0) \<and> rest_alternates (y # ys)"
| "rest_alternates _ \<longleftrightarrow> True"

section \<open>Label remapper and the import functions\<close>

text \<open>
  Reading the recordings (\<open>sio.loadmat\<close>) is outside the model: an import function
  takes, for each of the three exercise files, the signal rows, the repetition stream
  and the movement stream it would read. The movement streams of the three files are
  integer arrays of one dtype \<open>dt\<close>, and a list holds the values of such an array.
  \<open>np.squeeze\<close> makes a one-dimensional array of a stored column, but a
  zero-dimensional one of a column with a single sample; \<open>np.append\<close> flattens what it
  is given, so every concatenated stream is one-dimensional. The signal has two channels
  or more.
\<close>

text \<open>Python's \<open>max\<close> of a sequence raises ValueError on an empty one.\<close>

definition py_max :: "int list \<Rightarrow> py_error + int" where
  "py_max xs = (case xs of [] \<Rightarrow> Inl ValueError | x # ys \<Rightarrow> Inr (fold max ys x))"

text \<open>\<open>max(move)\<close> for the squeezed column of the first file: Python's \<open>max\<close> cannot
  iterate over a zero-dimensional array and raises TypeError.\<close>

definition py_max_squeezed :: "int list \<Rightarrow> py_error + int" where
  "py_max_squeezed xs = (if length xs = 1 then Inl TypeError else py_max xs)"

text \<open>\<open>move_tmp[move_tmp != 0] += max(move)\<close>, given the maximum: the sum is formed in
  the dtype of \<open>move_tmp\<close> and written back into it.\<close>

definition add_offset :: "np_dtype \<Rightarrow> int \<Rightarrow> int list \<Rightarrow> int list" where
  "add_offset dt off move_tmp = map (\<lambda>x. if x \<noteq> 0 then np_wrap dt (x + off) else x) move_tmp"

text \<open>The concatenated movement stream of \<open>import_db1\<close> as it is before the cast. The
  second \<open>max(move)\<close> reads the stream the first addition has written.\<close>

definition remapped_ids_db1 ::
  "np_dtype \<Rightarrow> int list \<Rightarrow> int list \<Rightarrow> int list \<Rightarrow> py_error + int list" where
  "remapped_ids_db1 dt move1 move2 move3 =
     (case py_max_squeezed move1 of
        Inl err \<Rightarrow> Inl err
      | Inr max1 \<Rightarrow>
          let mv = move1 @ add_offset dt max1 move2
          in case py_max mv of
               Inl err \<Rightarrow> Inl err
             | Inr max2 \<Rightarrow> Inr (mv @ add_offset dt max2 move3))"

text \<open>The same stream after \<open>move = move.astype('int8')\<close>.\<close>

definition remap_db1 ::
  "np_dtype \<Rightarrow> int list \<Rightarrow> int list \<Rightarrow> int list \<Rightarrow> py_error + int list" where
  "remap_db1 dt move1 move2 move3 =
     (case remapped_ids_db1 dt move1 move2 move3 of
        Inl err \<Rightarrow> Inl err
      | Inr mv \<Rightarrow> Inr (map to_int8 mv))"

text \<open>
  Silent wrapping into the label range: \<open>y\<close> stands for the gesture id \<open>v\<close> when it is
  the value of \<open>-128..127\<close> that differs from \<open>v\<close> by a multiple of 256, which is \<open>v\<close>
  itself for an id in that range.
\<close>

definition silently_wrapped :: "int \<Rightarrow> int \<Rightarrow> bool" where
  "silently_wrapped v y \<longleftrightarrow>
     - 128 \<le> y \<and> y \<le> 127 \<and> (y - v) mod 256 = 0 \<and> (- 128 \<le> v \<and> v \<le> 127 \<longrightarrow> y = v)"

definition import_db1 ::
  "np_dtype \<Rightarrow> 'e list \<times> int list \<times> int list \<Rightarrow> 'e list \<times> int list \<times> int list \<Rightarrow>
   'e list \<times> int list \<times> int list \<Rightarrow> int \<Rightarrow> py_error + 'e nina_data" where
  "import_db1 dt e1 e2 e3 rest_length_cap =
     (case (e1, e2, e3) of
        ((emg1, rep1, move1), (emg2, rep2, move2), (emg3, rep3, move3)) \<Rightarrow>
          (case remap_db1 dt move1 move2 move3 of
             Inl err \<Rightarrow> Inl err
           | Inr mv \<Rightarrow> segment 100 (emg1 @ emg2 @ emg3) (rep1 @ rep2 @ rep3) mv rest_length_cap))"

text \<open>\<open>data['stimulus'][-1] = 0\<close>: IndexError on an empty stream.\<close>

definition set_last_zero :: "int list \<Rightarrow> py_error + int list" where
  "set_last_zero xs = (if xs = [] then Inl IndexError else Inr (butlast xs @ [0]))"

text \<open>\<open>a[np.where(a == old)] = new\<close> for a pair \<open>(old, new)\<close>; the nine assignments of
  the third exercise run one after the other over the raw ids of the force exercises.\<close>

definition replace_label :: "int \<times> int \<Rightarrow> int list \<Rightarrow> int list" where
  "replace_label p xs = map (\<lambda>x. if x = fst p then snd p else x) xs"

definition force_labels :: "int list" where
  "force_labels = [1, 2, 4, 6, 8, 9, 16, 32, 40]"

definition remap_db2 :: "int list \<Rightarrow> int list \<Rightarrow> int list \<Rightarrow> py_error + int list" where
  "remap_db2 move1 move2 stimulus3 =
     (case set_last_zero stimulus3 of
        Inl err \<Rightarrow> Inl err
      | Inr stim \<Rightarrow>
          Inr (map to_int8
                 (move1 @ move2 @
                  fold replace_label (zip force_labels [41, 42, 43, 44, 45, 46, 47, 48, 49]) stim)))"

definition import_db2 ::
  "'e list \<times> int list \<times> int list \<Rightarrow> 'e list \<times> int list \<times> int list \<Rightarrow>
   'e list \<times> int list \<times> int list \<Rightarrow> int \<Rightarrow> py_error + 'e nina_data" where
  "import_db2 e1 e2 e3 rest_length_cap =
     (case (e1, e2, e3) of
        ((emg1, rep1, move1), (emg2, rep2, move2), (emg3, repetition3, stimulus3)) \<Rightarrow>
          (case set_last_zero repetition3 of
             Inl err \<Rightarrow> Inl err
           | Inr rep3 \<Rightarrow>
               (case remap_db2 move1 move2 stimulus3 of
                  Inl err \<Rightarrow> Inl err
                | Inr mv \<Rightarrow>
                    segment 2000 (emg1 @ emg2 @ emg3) (rep1 @ rep2 @ rep3) mv rest_length_cap)))"

text \<open>In \<open>import_db3\<close> the new labels \<open>last_mov + k\<close> are assigned into the array of the
  third file, which holds them in its dtype.\<close>

definition remap_db3 ::
  "np_dtype \<Rightarrow> int list \<Rightarrow> int list \<Rightarrow> int list \<Rightarrow> py_error + int list" where
  "remap_db3 dt move1 move2 move3 =
     (case py_max (move1 @ move2) of
        Inl err \<Rightarrow> Inl err
      | Inr last_mov \<Rightarrow>
          Inr (map to_int8
                 (move1 @ move2 @
                  fold replace_label
                    (zip force_labels
                       (map (\<lambda>k. np_wrap dt (last_mov + k)) [1, 2, 3, 4, 5, 6, 7, 8, 9]))
                    move3)))"

definition import_db3 ::
  "np_dtype \<Rightarrow> 'e list \<times> int list \<times> int list \<Rightarrow> 'e list \<times> int list \<times> int list \<Rightarrow>
   'e list \<times> int list \<times> int list \<Rightarrow> int \<Rightarrow> py_error + 'e nina_data" where
  "import_db3 dt e1 e2 e3 rest_length_cap =
     (case (e1, e2, e3) of
        ((emg1, rep1, move1), (emg2, rep2, move2), (emg3, rep3, move3)) \<Rightarrow>
          (case remap_db3 dt move1 move2 move3 of
             Inl err \<Rightarrow> Inl err
           | Inr mv \<Rightarrow> segment 2000 (emg1 @ emg2 @ emg3) (rep1 @ rep2 @ rep3) mv rest_length_cap))"

definition import_subject ::
  "np_dtype \<Rightarrow> 'e list \<times> int list \<times> int list \<Rightarrow> 'e list \<times> int list \<times> int list \<Rightarrow>
   'e list \<times> int list \<times> int list \<Rightarrow> int \<Rightarrow> int \<Rightarrow> py_error + 'e nina_data" where
  "import_subject dt e1 e2 e3 db rest_length_cap =
     (if db = 1 then import_db1 dt e1 e2 e3 rest_length_cap
      else if db = 2 then import_db2 e1 e2 e3 rest_length_cap
      else Inl ValueError)"

section \<open>Index lookup\<close>

text \<open>
  \<open>np.squeeze\<close> drops every axis of length one. Applied to the \<open>(1, k)\<close> array that
  \<open>np.concatenate(targets, axis=1)\<close> builds it gives a one-dimensional array of \<open>k\<close>
  positions, but for \<open>k = 1\<close> a zero-dimensional one: a scalar, with no length and no
  first axis.
\<close>

datatype idx_array = Scalar nat | Vec "nat list"

text \<open>\<open>np.where(in_array == x)\<close>: the positions holding \<open>x\<close>, ascending.\<close>

definition np_where_eq :: "'a list \<Rightarrow> 'a \<Rightarrow> nat list" where
  "np_where_eq in_array x = filter (\<lambda>i. in_array ! i = x) [0..<length in_array]"

definition np_squeeze :: "nat list \<Rightarrow> idx_array" where
  "np_squeeze targets = (case targets of [t] \<Rightarrow> Scalar t | _ \<Rightarrow> Vec targets)"

text \<open>\<open>np.concatenate\<close> of an empty list of arrays raises ValueError.\<close>

definition get_idxs :: "'a list \<Rightarrow> 'a list \<Rightarrow> py_error + idx_array" where
  "get_idxs in_array to_find =
     (if to_find = [] then Inl ValueError
      else Inr (np_squeeze (concat (map (np_where_eq in_array) to_find))))"

text \<open>\<open>np.unique\<close>: the distinct values, sorted.\<close>

definition np_unique :: "int list \<Rightarrow> int list" where
  "np_unique xs = sort (remdups xs)"

section \<open>Window extractor\<close>

text \<open>\<open>a[i]\<close> for an integer \<open>i\<close>: a negative index counts from the end, and an index
  outside the array raises IndexError. \<open>a[idx]\<close> for an index array reads every position.\<close>

definition np_index :: "'a list \<Rightarrow> int \<Rightarrow> py_error + 'a" where
  "np_index xs i =
     (if 0 \<le> i \<and> i < int (length xs) then Inr (xs ! nat i)
      else if i < 0 \<and> 0 \<le> i + int (length xs) then Inr (xs ! nat (i + int (length xs)))
      else Inl IndexError)"

fun np_take :: "'a list \<Rightarrow> int list \<Rightarrow> py_error + 'a list" where
  "np_take xs [] = Inr []"
| "np_take xs (i # is) =
     (case np_index xs i of
        Inl err \<Rightarrow> Inl err
      | Inr v \<Rightarrow> (case np_take xs is of Inl err \<Rightarrow> Inl err | Inr vs \<Rightarrow> Inr (v # vs)))"

text \<open>The rows \<open>a[lo:hi, :]\<close>.\<close>

definition np_slice :: "'a list \<Rightarrow> int \<Rightarrow> int \<Rightarrow> 'a list" where
  "np_slice xs lo hi =
     (let l = slice_bound (length xs) lo; h = slice_bound (length xs) hi
      in take (h - l) (drop l xs))"

text \<open>\<open>range(start, stop, step)\<close> for a positive step.\<close>

definition py_range :: "int \<Rightarrow> int \<Rightarrow> int \<Rightarrow> int list" where
  "py_range start stop step =
     map (\<lambda>k. start + int k * step) [0..<nat ((stop - start + step - 1) div step)]"

text \<open>
  The loop that fills \<open>X_data\<close>, \<open>Y_data\<close> and \<open>R_data\<close>. A row of the signal is a value
  of any type \<open>'r\<close>: the cast of the samples to \<open>dtype\<close> is not modelled. The two label
  arrays have dtype int8.
\<close>

fun windows_loop ::
  "nat \<Rightarrow> 'r list \<Rightarrow> int list \<Rightarrow> int list \<Rightarrow> int list \<Rightarrow>
   py_error + ('r list list \<times> int list \<times> int list)" where
  "windows_loop window_len e movements repetitons [] = Inr ([], [], [])"
| "windows_loop window_len e movements repetitons (win_end # targets) =
     (let win_start = win_end - (int window_len - 1)
      in case np_index movements win_end of
           Inl err \<Rightarrow> Inl err
         | Inr y \<Rightarrow>
             (case np_index repetitons win_end of
                Inl err \<Rightarrow> Inl err
              | Inr r \<Rightarrow>
                  (case windows_loop window_len e movements repetitons targets of
                     Inl err \<Rightarrow> Inl err
                   | Inr (X_data, Y_data, R_data) \<Rightarrow>
                       Inr (np_slice e win_start (win_end + 1) # X_data,
                            to_int8 y # Y_data, to_int8 r # R_data))))"

text \<open>
  \<open># Keep only selected movement(s)\<close>. A zero-dimensional \<open>move_targets\<close> makes
  \<open>targets[move_targets]\<close> zero-dimensional too, and the \<open>targets.shape[0]\<close> that follows
  raises IndexError.
\<close>

definition select_moves :: "int list \<Rightarrow> int list \<Rightarrow> int list option \<Rightarrow> py_error + int list" where
  "select_moves movements targets which_moves =
     (case which_moves of
        None \<Rightarrow> Inr targets
      | Some moves \<Rightarrow>
          (case np_take movements targets of
             Inl err \<Rightarrow> Inl err
           | Inr labels \<Rightarrow>
               (case get_idxs labels moves of
                  Inl err \<Rightarrow> Inl err
                | Inr (Scalar t) \<Rightarrow> Inl IndexError
                | Inr (Vec move_targets) \<Rightarrow> Inr (map (\<lambda>t. targets ! t) move_targets))))"

text \<open>
  \<open>get_windows\<close>. A zero increment makes \<open>range\<close> raise ValueError. An empty range makes
  \<open>possible_targets\<close> an empty array of dtype float64, which \<open>repetitons[possible_targets]\<close>
  refuses as an index (IndexError). A zero-dimensional \<open>targets\<close> has no \<open>shape[0]\<close> and
  cannot be indexed: every path raises, IndexError here.
\<close>

definition get_windows ::
  "int list \<Rightarrow> nat \<Rightarrow> nat \<Rightarrow> 'r list \<Rightarrow> int list \<Rightarrow> int list \<Rightarrow> int list option \<Rightarrow>
   py_error + ('r list list \<times> int list \<times> int list)" where
  "get_windows which_reps window_len window_inc e movements repetitons which_moves =
     (if window_inc = 0 then Inl ValueError
      else
        let possible_targets = py_range (int window_len - 1) (int (length e)) (int window_inc)
        in if possible_targets = [] then Inl IndexError
           else case np_take repetitons possible_targets of
                  Inl err \<Rightarrow> Inl err
                | Inr labels \<Rightarrow>
                    (case get_idxs labels which_reps of
                       Inl err \<Rightarrow> Inl err
                     | Inr (Scalar t) \<Rightarrow> Inl IndexError
                     | Inr (Vec ts) \<Rightarrow>
                         (case select_moves movements
                                 (map (\<lambda>t. (int window_len - 1) + int t * int window_inc) ts)
                                 which_moves of
                            Inl err \<Rightarrow> Inl err
                          | Inr targets \<Rightarrow>
                              windows_loop window_len e movements repetitons targets)))"

text \<open>
  Names for the statement about \<open>get_windows\<close>: the candidate end positions, the
  positions the filters retain, and the end positions in the order \<open>get_idxs\<close> lists
  them (by movement in the order of \<open>which_moves\<close>, within a movement by repetition in
  the order of \<open>which_reps\<close>, ascending within a repetition).
\<close>

definition candidates :: "nat \<Rightarrow> nat \<Rightarrow> nat \<Rightarrow> int list" where
  "candidates window_len window_inc nb_obs =
     py_range (int window_len - 1) (int nb_obs) (int window_inc)"

definition retained :: "int list \<Rightarrow> int list \<Rightarrow> int list \<Rightarrow> int list option \<Rightarrow> int \<Rightarrow> bool" where
  "retained which_reps movements repetitons which_moves p \<longleftrightarrow>
     repetitons ! nat p \<in> set which_reps \<and>
     (case which_moves of None \<Rightarrow> True | Some moves \<Rightarrow> movements ! nat p \<in> set moves)"

definition window_ends ::
  "int list \<Rightarrow> nat \<Rightarrow> nat \<Rightarrow> nat \<Rightarrow> int list \<Rightarrow> int list \<Rightarrow> int list option \<Rightarrow> int list" where
  "window_ends which_reps window_len window_inc nb_obs movements repetitons which_moves =
     (let by_rep =
            concat (map (\<lambda>r. filter (\<lambda>p. repetitons ! nat p = r)
                                (candidates window_len window_inc nb_obs)) which_reps)
      in case which_moves of
           None \<Rightarrow> by_rep
         | Some moves \<Rightarrow> concat (map (\<lambda>m. filter (\<lambda>p. movements ! nat p = m) by_rep) moves))"

section \<open>Split generators\<close>

text \<open>\<open>itertools.combinations(rep_ids, nb_test)\<close>, in the order it yields them.\<close>

fun combinations :: "'a list \<Rightarrow> nat \<Rightarrow> 'a list list" where
  "combinations xs 0 = [[]]"
| "combinations [] (Suc k) = []"
| "combinations (x # xs) (Suc k) = map ((#) x) (combinations xs k) @ combinations xs (Suc k)"

text \<open>\<open>np.delete(rows, i, axis=0)\<close> for an index inside the array.\<close>

definition np_delete :: "'a list \<Rightarrow> nat \<Rightarrow> 'a list" where
  "np_delete rows i = take i rows @ drop (Suc i) rows"

text \<open>\<open>np.setdiff1d(ar1, ar2)\<close>: the sorted distinct values of \<open>ar1\<close> that are not in
  \<open>ar2\<close>.\<close>

definition np_setdiff1d :: "int list \<Rightarrow> int list \<Rightarrow> int list" where
  "np_setdiff1d ar1 ar2 = filter (\<lambda>x. x \<notin> set ar2) (np_unique ar1)"

text \<open>\<open>table[i, :] = v\<close> for a row of the given width: \<open>v\<close> has that length, or one
  element that is broadcast, or the assignment raises ValueError.\<close>

definition broadcast_row :: "nat \<Rightarrow> 'a list \<Rightarrow> py_error + 'a list" where
  "broadcast_row width v =
     (if length v = width then Inr v
      else if length v = 1 then Inr (replicate width (hd v))
      else Inl ValueError)"

text \<open>\<open>np.where(np.all(all_combos == base, axis=1))[0][0]\<close>: the first row equal to
  \<open>base\<close>; the second \<open>[0]\<close> raises IndexError when there is none.\<close>

fun first_index :: "'a list \<Rightarrow> 'a \<Rightarrow> nat option" where
  "first_index [] y = None"
| "first_index (x # xs) y = (if x = y then Some 0 else map_option Suc (first_index xs y))"

text \<open>\<open>max(counts)\<close> for the counts \<open>np.unique(..., return_counts=True)\<close> returns. The
  code takes it of the first \<open>cur_split + 1\<close> rows of a table of positive width, which
  are never empty.\<close>

definition max_count :: "int list \<Rightarrow> nat" where
  "max_count xs = fold max (map (count_list xs) (remdups xs)) 0"

text \<open>The final loop of \<open>gen_split_balanced\<close>:
  \<open>train_reps[i, :] = np.setdiff1d(rep_ids, test_reps[i, :])\<close> for every fold.\<close>

fun train_rows :: "int list \<Rightarrow> nat \<Rightarrow> int list list \<Rightarrow> py_error + int list list" where
  "train_rows rep_ids width [] = Inr []"
| "train_rows rep_ids width (test_row # test_rows) =
     (case broadcast_row width (np_setdiff1d rep_ids test_row) of
        Inl err \<Rightarrow> Inl err
      | Inr row \<Rightarrow>
          (case train_rows rep_ids width test_rows of
             Inl err \<Rightarrow> Inl err
           | Inr rows \<Rightarrow> Inr (row # rows)))"

text \<open>
  The state of the \<open>while\<close> loop of \<open>gen_split_balanced\<close>. The random source is a list
  of draws: draw \<open>d\<close> stands for the result \<open>d mod k\<close> of \<open>np.random.randint(0, k)\<close>, so
  every list describes a run and every run a list. Each iteration that reaches
  \<open>randint\<close> uses one draw; a list that ends before the loop does gives \<open>None\<close>, and so
  a run that never ends has no list that gives a result.
\<close>

record split_state =
  s_all_combos :: "int list list"
  s_test_reps :: "int list list"
  s_cur_split :: nat
  s_reset_counter :: nat

text \<open>The state the loop starts from, and restarts from: the pool as it was before the
  loop, an empty test table with \<open>base\<close> in row 0 if one is given.\<close>

definition restart :: "nat \<Rightarrow> nat \<Rightarrow> int list list \<Rightarrow> int list option \<Rightarrow> split_state" where
  "restart nb_splits nb_test all_combos_copy base =
     (case base of
        None \<Rightarrow> \<lparr>s_all_combos = all_combos_copy,
                 s_test_reps = replicate nb_splits (replicate nb_test 0),
                 s_cur_split = 0, s_reset_counter = 0\<rparr>
      | Some row \<Rightarrow> \<lparr>s_all_combos = all_combos_copy,
                     s_test_reps = (replicate nb_splits (replicate nb_test 0))[0 := row],
                     s_cur_split = 1, s_reset_counter = 0\<rparr>)"

text \<open>The \<open>if reset_counter >= 10 or all_combos.shape[0] == 0\<close> at the head of the loop
  body.\<close>

definition before_draw :: "nat \<Rightarrow> nat \<Rightarrow> int list list \<Rightarrow> int list option \<Rightarrow> split_state \<Rightarrow> split_state" where
  "before_draw nb_splits nb_test all_combos_copy base st =
     (if s_reset_counter st \<ge> 10 \<or> length (s_all_combos st) = 0
      then restart nb_splits nb_test all_combos_copy base else st)"

text \<open>The rest of the body, from the draw on.\<close>

definition after_draw :: "nat \<Rightarrow> nat \<Rightarrow> split_state \<Rightarrow> split_state" where
  "after_draw nb_test d st =
     (let randomIndex = d mod length (s_all_combos st);
          test_reps = (s_test_reps st)[s_cur_split st := s_all_combos st ! randomIndex];
          all_combos = np_delete (s_all_combos st) randomIndex
      in if max_count (concat (take (s_cur_split st + 1) test_reps)) > nb_test
         then st\<lparr>s_all_combos := all_combos,
                 s_test_reps := test_reps[s_cur_split st := replicate nb_test 0],
                 s_reset_counter := s_reset_counter st + 1\<rparr>
         else st\<lparr>s_all_combos := all_combos,
                 s_test_reps := test_reps,
                 s_cur_split := s_cur_split st + 1,
                 s_reset_counter := 0\<rparr>)"

text \<open>The loop. \<open>np.random.randint(0, 0)\<close> raises ValueError: the pool is empty even
  after the restart.\<close>

fun balanced_loop ::
  "nat \<Rightarrow> nat \<Rightarrow> int list list \<Rightarrow> int list option \<Rightarrow> nat list \<Rightarrow> split_state \<Rightarrow>
   (py_error + int list list) option" where
  "balanced_loop nb_splits nb_test all_combos_copy base [] st =
     (if s_cur_split st < nb_splits then
        (if s_all_combos (before_draw nb_splits nb_test all_combos_copy base st) = []
         then Some (Inl ValueError) else None)
      else Some (Inr (s_test_reps st)))"
| "balanced_loop nb_splits nb_test all_combos_copy base (d # draws) st =
     (if s_cur_split st < nb_splits then
        (if s_all_combos (before_draw nb_splits nb_test all_combos_copy base st) = []
         then Some (Inl ValueError)
         else balanced_loop nb_splits nb_test all_combos_copy base draws
                (after_draw nb_test d (before_draw nb_splits nb_test all_combos_copy base st)))
      else Some (Inr (s_test_reps st)))"

text \<open>\<open>if base is not None\<close>: the row written to \<open>test_reps[0, :]\<close> and the pool without
  it. Writing row 0 of a table without rows raises IndexError.\<close>

definition pin_base ::
  "nat \<Rightarrow> nat \<Rightarrow> int list list \<Rightarrow> int list option \<Rightarrow>
   py_error + (int list list \<times> int list option)" where
  "pin_base nb_splits nb_test all_combos base =
     (case base of
        None \<Rightarrow> Inr (all_combos, None)
      | Some b \<Rightarrow>
          if nb_splits = 0 then Inl IndexError
          else (case broadcast_row nb_test b of
                  Inl err \<Rightarrow> Inl err
                | Inr row \<Rightarrow>
                    (case first_index all_combos row of
                       None \<Rightarrow> Inl IndexError
                     | Some j \<Rightarrow> Inr (np_delete all_combos j, Some row))))"

text \<open>
  \<open>gen_split_balanced\<close>. \<open>nb_test\<close> is a natural number. \<open>np.zeros\<close> raises ValueError
  for the negative width \<open>nb_reps - nb_test\<close> of the train table, and
  \<open>reshape(-1, nb_test)\<close> raises ValueError for \<open>nb_test = 0\<close>.
\<close>

definition gen_split_balanced ::
  "nat list \<Rightarrow> int list \<Rightarrow> nat \<Rightarrow> int list option \<Rightarrow>
   (py_error + (int list list \<times> int list list)) option" where
  "gen_split_balanced draws rep_ids nb_test base =
     (let nb_reps = length rep_ids; nb_splits = nb_reps
      in if nb_reps < nb_test \<or> nb_test = 0 then Some (Inl ValueError)
         else case pin_base nb_splits nb_test (combinations rep_ids nb_test) base of
                Inl err \<Rightarrow> Some (Inl err)
              | Inr (all_combos, row) \<Rightarrow>
                  (case balanced_loop nb_splits nb_test all_combos row draws
                          (restart nb_splits nb_test all_combos row) of
                     None \<Rightarrow> None
                   | Some (Inl err) \<Rightarrow> Some (Inl err)
                   | Some (Inr test_reps) \<Rightarrow>
                       (case train_rows rep_ids (nb_reps - nb_test) test_reps of
                          Inl err \<Rightarrow> Some (Inl err)
                        | Inr train_reps \<Rightarrow> Some (Inr (train_reps, test_reps)))))"

text \<open>\<open>gen_split_rand\<close>: the state of its \<open>for\<close> loop, the loop over
  \<open>range(cur_split, nb_splits)\<close>, and the function.\<close>

record rand_state =
  r_all_combos :: "int list list"
  r_train_reps :: "int list list"
  r_test_reps :: "int list list"

fun rand_loop ::
  "int list \<Rightarrow> nat \<Rightarrow> nat list \<Rightarrow> nat list \<Rightarrow> rand_state \<Rightarrow> (py_error + rand_state) option" where
  "rand_loop rep_ids width [] draws st = Some (Inr st)"
| "rand_loop rep_ids width (i # is) draws st =
     (if r_all_combos st = [] then Some (Inl ValueError)
      else case draws of
             [] \<Rightarrow> None
           | d # draws' \<Rightarrow>
               (let rand_idx = d mod length (r_all_combos st);
                    test_row = r_all_combos st ! rand_idx
                in case broadcast_row width (np_setdiff1d rep_ids test_row) of
                     Inl err \<Rightarrow> Some (Inl err)
                   | Inr train_row \<Rightarrow>
                       rand_loop rep_ids width is draws'
                         \<lparr>r_all_combos = np_delete (r_all_combos st) rand_idx,
                          r_train_reps = (r_train_reps st)[i := train_row],
                          r_test_reps = (r_test_reps st)[i := test_row]\<rparr>))"

definition gen_split_rand ::
  "nat list \<Rightarrow> int list \<Rightarrow> nat \<Rightarrow> nat \<Rightarrow> int list option \<Rightarrow>
   (py_error + (int list list \<times> int list list)) option" where
  "gen_split_rand draws rep_ids nb_test nb_splits base =
     (let nb_reps = length rep_ids
      in if nb_reps < nb_test \<or> nb_test = 0 then Some (Inl ValueError)
         else
           let all_combos = combinations rep_ids nb_test;
               train_reps = replicate nb_splits (replicate (nb_reps - nb_test) 0);
               test_reps = replicate nb_splits (replicate nb_test 0)
           in case (case base of
                      None \<Rightarrow> Inr (\<lparr>r_all_combos = all_combos, r_train_reps = train_reps,
                                     r_test_reps = test_reps\<rparr>, 0)
                    | Some b \<Rightarrow>
                        if nb_splits = 0 then Inl IndexError
                        else (case broadcast_row nb_test b of
                                Inl err \<Rightarrow> Inl err
                              | Inr row \<Rightarrow>
                                  (case broadcast_row (nb_reps - nb_test)
                                          (np_setdiff1d rep_ids row) of
                                     Inl err \<Rightarrow> Inl err
                                   | Inr train_row \<Rightarrow>
                                       (case first_index all_combos row of
                                          None \<Rightarrow> Inl IndexError
                                        | Some j \<Rightarrow>
                                            Inr (\<lparr>r_all_combos = np_delete all_combos j,
                                                  r_train_reps = train_reps[0 := train_row],
                                                  r_test_reps = test_reps[0 := row]\<rparr>, 1))))) of
                  Inl err \<Rightarrow> Some (Inl err)
                | Inr (st, cur_split) \<Rightarrow>
                    (case rand_loop rep_ids (nb_reps - nb_test) [cur_split..<nb_splits] draws st of
                       None \<Rightarrow> None
                     | Some (Inl err) \<Rightarrow> Some (Inl err)
                     | Some (Inr st') \<Rightarrow> Some (Inr (r_train_reps st', r_test_reps st'))))"

text \<open>The invariant of the \<open>while\<close> loop: the folds accepted so far are combinations
  of the pool the call started from, and once all folds are accepted no value occurs in
  the test table more than \<open>nb_test\<close> times.\<close>

definition split_inv :: "nat \<Rightarrow> nat \<Rightarrow> int list list \<Rightarrow> split_state \<Rightarrow> bool" where
  "split_inv nb_splits nb_test combos st \<longleftrightarrow>
     length (s_test_reps st) = nb_splits \<and> s_cur_split st \<le> nb_splits \<and>
     (\<forall>i < s_cur_split st. s_test_reps st ! i \<in> set combos) \<and>
     set (s_all_combos st) \<subseteq> set combos \<and>
     (s_cur_split st = nb_splits \<longrightarrow>
        (\<forall>v. count_list (concat (s_test_reps st)) v \<le> nb_test))"

definition base_ok :: "nat \<Rightarrow> int list list \<Rightarrow> int list option \<Rightarrow> bool" where
  "base_ok nb_splits combos base \<longleftrightarrow>
     (case base of None \<Rightarrow> 0 < nb_splits | Some row \<Rightarrow> 1 < nb_splits \<and> row \<in> set combos)"

section \<open>Normalisation\<close>

text \<open>
  \<open>normalise_emg\<close> hands the caller's array to scikit-learn's \<open>StandardScaler\<close>, built
  with \<open>copy=False\<close>. The scaler is not code of this repository; it is modelled by what
  its documentation states: \<open>fit\<close> computes the mean and the standard deviation of every
  column (a deviation of zero counts as one), and with \<open>copy=False\<close> \<open>transform\<close> centres
  and scales a floating-point array in place and returns that array. Samples are real
  numbers. Arrays live in a store, a function from addresses to arrays, and an argument
  or a result that is an array is an address.
\<close>

type_synonym addr = nat
type_synonym heap = "addr \<Rightarrow> real list list"

definition empty_heap :: heap where
  "empty_heap = (\<lambda>a. [])"

definition column :: "real list list \<Rightarrow> nat \<Rightarrow> real list" where
  "column rows j = map (\<lambda>row. row ! j) rows"

definition mean :: "real list \<Rightarrow> real" where
  "mean xs = sum_list xs / real (length xs)"

definition scale_of :: "real list \<Rightarrow> real" where
  "scale_of xs =
     (let s = sqrt (mean (map (\<lambda>x. (x - mean xs) ^ 2) xs)) in if s = 0 then 1 else s)"

definition standard_scale :: "real list list \<Rightarrow> real list list \<Rightarrow> real list list" where
  "standard_scale train X =
     map (\<lambda>row. map (\<lambda>j. (row ! j - mean (column train j)) / scale_of (column train j))
                  [0..<length row]) X"

text \<open>
  \<open>train_targets\<close> after the movement filter, which runs when both \<open>which_moves\<close> and
  \<open>movements\<close> are given. Zero-dimensional \<open>train_targets\<close> select one row as a
  one-dimensional array, which \<open>fit\<close> refuses (ValueError); so does a zero-dimensional
  \<open>move_targets\<close>, which makes \<open>train_targets[move_targets]\<close> a scalar.
  Zero-dimensional \<open>train_targets\<close> cannot be indexed by the filter (IndexError).
\<close>

definition filter_train_targets ::
  "int list \<Rightarrow> int list \<Rightarrow> idx_array \<Rightarrow> py_error + idx_array" where
  "filter_train_targets mv moves train_targets =
     (case train_targets of
        Scalar t \<Rightarrow>
          (case np_index mv (int t) of
             Inl err \<Rightarrow> Inl err
           | Inr label \<Rightarrow> if moves = [] then Inl ValueError else Inl IndexError)
      | Vec ts \<Rightarrow>
          (case np_take mv (map int ts) of
             Inl err \<Rightarrow> Inl err
           | Inr labels \<Rightarrow>
               (case get_idxs labels moves of
                  Inl err \<Rightarrow> Inl err
                | Inr (Scalar t) \<Rightarrow> Inr (Scalar (ts ! t))
                | Inr (Vec move_targets) \<Rightarrow> Inr (Vec (map (\<lambda>t. ts ! t) move_targets)))))"

definition train_rows_of ::
  "int list \<Rightarrow> int list \<Rightarrow> int list option \<Rightarrow> int list option \<Rightarrow> py_error + int list" where
  "train_rows_of reps train_reps movements which_moves =
     (case get_idxs reps train_reps of
        Inl err \<Rightarrow> Inl err
      | Inr train_targets \<Rightarrow>
          (case (case (which_moves, movements) of
                   (Some moves, Some mv) \<Rightarrow> filter_train_targets mv moves train_targets
                 | _ \<Rightarrow> Inr train_targets) of
             Inl err \<Rightarrow> Inl err
           | Inr (Scalar t) \<Rightarrow> Inl ValueError
           | Inr (Vec ts) \<Rightarrow> Inr (map int ts)))"

text \<open>\<open>normalise_emg\<close>: \<open>emg[train_targets, :]\<close> is a copy of the selected rows, \<open>fit\<close>
  refuses an empty one, and \<open>transform\<close> writes the scaled array over the array at
  \<open>emg_ref\<close> and returns \<open>emg_ref\<close>.\<close>

definition normalise_emg ::
  "heap \<Rightarrow> addr \<Rightarrow> int list \<Rightarrow> int list \<Rightarrow> int list option \<Rightarrow> int list option \<Rightarrow>
   py_error + (addr \<times> heap)" where
  "normalise_emg h emg_ref reps train_reps movements which_moves =
     (case train_rows_of reps train_reps movements which_moves of
        Inl err \<Rightarrow> Inl err
      | Inr train_targets \<Rightarrow>
          (case np_take (h emg_ref) train_targets of
             Inl err \<Rightarrow> Inl err
           | Inr train \<Rightarrow>
               if train = [] then Inl ValueError
               else Inr (emg_ref, h(emg_ref := standard_scale train (h emg_ref)))))"

section \<open>Properties of the repetition segmenter\<close>

lemma seg_loop_append:
  "seg_loop mr c fs u (xs @ ys) st =
     (case seg_loop mr c fs u xs st of Inl err \<Rightarrow> Inl err | Inr st' \<Rightarrow> seg_loop mr c fs u ys st')"
  by (induction xs arbitrary: st) (auto split: sum.splits)

lemma seg_step_regions:
  assumes "2 * (i + 1) < length mr" and "length (s_rep_regions st) = length mr"
  shows "\<exists>st'. seg_step mr c fs u i st = Inr st' \<and>
           length (s_rep_regions st') = length mr \<and>
           s_last_end_idx st' =
             (if over_cap mr c fs i then mr ! (2 * (i + 1)) - c * fs else midpoint_idx mr i) \<and>
           s_rep_regions st' =
             (s_rep_regions st)[2 * i := s_last_end_idx st, 2 * i + 1 := block_end mr c fs i]"
  using assms by (simp add: seg_step_def Let_def over_cap_def block_end_def)

lemma seg_loop_regions:
  assumes "2 * (k + 1) \<le> length mr" and "length (s_rep_regions st0) = length mr"
    and "s_last_end_idx st0 = py_round_half (mr ! 0)"
  shows "\<exists>st. seg_loop mr c fs u [0..<k] st0 = Inr st \<and>
           length (s_rep_regions st) = length mr \<and>
           s_last_end_idx st = block_start mr c fs k \<and>
           (\<forall>j<k. s_rep_regions st ! (2 * j) = block_start mr c fs j \<and>
                  s_rep_regions st ! (2 * j + 1) = block_end mr c fs j)"
  using assms(1)
proof (induction k)
  case 0
  with assms(2,3) show ?case by simp
next
  case (Suc k)
  then obtain st where loop: "seg_loop mr c fs u [0..<k] st0 = Inr st"
    and len: "length (s_rep_regions st) = length mr"
    and le: "s_last_end_idx st = block_start mr c fs k"
    and rows: "\<forall>j<k. s_rep_regions st ! (2 * j) = block_start mr c fs j \<and>
                  s_rep_regions st ! (2 * j + 1) = block_end mr c fs j"
    by auto
  from Suc.prems have "2 * (k + 1) < length mr" by simp
  from seg_step_regions [OF this len, of c fs u]
  obtain st' where step: "seg_step mr c fs u k st = Inr st'"
    and len': "length (s_rep_regions st') = length mr"
    and le': "s_last_end_idx st' =
             (if over_cap mr c fs k then mr ! (2 * (k + 1)) - c * fs else midpoint_idx mr k)"
    and reg': "s_rep_regions st' =
             (s_rep_regions st)[2 * k := s_last_end_idx st, 2 * k + 1 := block_end mr c fs k]"
    by blast
  have "seg_loop mr c fs u [0..<Suc k] st0 = Inr st'"
    using loop step by (simp add: seg_loop_append)
  moreover have "s_last_end_idx st' = block_start mr c fs (Suc k)"
    using le' by simp
  moreover have "s_rep_regions st' ! (2 * j) = block_start mr c fs j \<and>
                 s_rep_regions st' ! (2 * j + 1) = block_end mr c fs j" if "j < Suc k" for j
  proof (cases "j = k")
    case True
    with \<open>2 * (k + 1) < length mr\<close> len le show ?thesis by (simp add: reg')
  next
    case False
    with that have "j < k" by simp
    with rows show ?thesis by (simp add: reg')
  qed
  ultimately show ?case using len' by blast
qed

lemma py_round_half_even: "even x \<Longrightarrow> py_round_half x = x div 2"
  by (simp add: py_round_half_def)

lemma py_round_half_bounds: "x - 1 \<le> 2 * py_round_half x \<and> 2 * py_round_half x \<le> x + 1"
  unfolding py_round_half_def by presburger

text \<open>What a valid stream makes of the region table: every row is written, row \<open>j\<close> by
  iteration \<open>j\<close> of the loop and the last one after it.\<close>

lemma segment_regions:
  assumes "valid_move_stream mv"
  shows "\<exists>r. segment fs e rr mv c = Inr r \<and>
           length (rep_regions r) = length (where_diff 0 mv) \<and>
           (\<forall>j < length (where_diff 0 mv) div 2.
              rep_regions r ! (2 * j) = block_start (where_diff 0 mv) c fs j) \<and>
           (\<forall>j. j + 1 < length (where_diff 0 mv) div 2 \<longrightarrow>
              rep_regions r ! (2 * j + 1) = block_end (where_diff 0 mv) c fs j) \<and>
           rep_regions r ! (length (where_diff 0 mv) - 1) =
             py_round_half (int (length e) + last (where_diff 0 mv)) - 1"
proof -
  define mr where "mr = where_diff 0 mv"
  define N where "N = length mr div 2"
  from assms have m2: "2 \<le> length mr" and ev: "even (length mr)"
    by (simp_all add: valid_move_stream_def mr_def)
  then have m: "length mr = 2 * N" and N: "1 \<le> N" by (auto simp: N_def)
  have nb: "nat (py_round_half (int (length mr)) - 1) = N - 1"
    using m by (simp add: py_round_half_even)
  define st0 where "st0 = \<lparr>s_last_end_idx = py_round_half (mr ! 0),
        s_rep = replicate (length rr) 0,
        s_rep_regions = replicate (length mr) (0::int),
        s_nb_capped = 0, s_cur_rep = 1\<rparr>"
  have "2 * ((N - 1) + 1) \<le> length mr" using m N by simp
  moreover have "length (s_rep_regions st0) = length mr" by (simp add: st0_def)
  moreover have "s_last_end_idx st0 = py_round_half (mr ! 0)" by (simp add: st0_def)
  ultimately obtain st where loop: "seg_loop mr c fs (int (length (remdups rr)) - 1) [0..<N - 1] st0 = Inr st"
    and len: "length (s_rep_regions st) = length mr"
    and le: "s_last_end_idx st = block_start mr c fs (N - 1)"
    and rows: "\<forall>j<N - 1. s_rep_regions st ! (2 * j) = block_start mr c fs j \<and>
                  s_rep_regions st ! (2 * j + 1) = block_end mr c fs j"
    using seg_loop_regions [of "N - 1" mr st0 c fs "int (length (remdups rr)) - 1"] by blast
  define r where "r = \<lparr>emg = e,
              rep = slice_assign (s_rep st) (s_last_end_idx st)
                      (py_round_half (int (length e) + last mr)) (to_int8 (s_cur_rep st)),
              move = mv,
              rep_regions = (s_rep_regions st)[length mr - 2 := s_last_end_idx st,
                   length mr - 1 := py_round_half (int (length e) + last mr) - 1],
              nb_capped = s_nb_capped st\<rparr>"
  from m2 have ne: "mr \<noteq> []" by auto
  have seg: "segment fs e rr mv c = Inr r"
    using loop m2 nb ne
    by (simp add: segment_def Let_def mr_def [symmetric] st0_def [symmetric] r_def)
  have i2: "length mr - 2 = 2 * (N - 1)" and i1: "length mr - 1 = 2 * (N - 1) + 1"
    using m N by simp_all
  have regs: "rep_regions r = (s_rep_regions st)[2 * (N - 1) := block_start mr c fs (N - 1),
                   2 * (N - 1) + 1 := py_round_half (int (length e) + last mr) - 1]"
    by (simp only: r_def i2 i1 le nina_data.simps)
  have "rep_regions r ! (2 * j) = block_start mr c fs j" if "j < N" for j
  proof (cases "j = N - 1")
    case True
    with m N len show ?thesis by (simp add: regs)
  next
    case False
    with that have "j < N - 1" by simp
    with rows m len show ?thesis by (simp add: regs)
  qed
  moreover have "rep_regions r ! (2 * j + 1) = block_end mr c fs j" if "j + 1 < N" for j
    using that rows m len by (simp add: regs)
  moreover have "rep_regions r ! (length mr - 1) = py_round_half (int (length e) + last mr) - 1"
  proof -
    have "2 * (N - 1) + 1 < length (s_rep_regions st)" using m N len by simp
    then have "rep_regions r ! (2 * (N - 1) + 1) = py_round_half (int (length e) + last mr) - 1"
      unfolding regs by (simp only: nth_list_update_eq length_list_update)
    then show ?thesis by (simp only: i1)
  qed
  moreover have "length (rep_regions r) = length mr" using len by (simp add: r_def)
  ultimately show ?thesis using seg unfolding mr_def [symmetric] N_def [symmetric] by blast
qed

subsection \<open>The truncation counter\<close>

lemma seg_step_nb_capped:
  assumes "seg_step mr c fs u i st = Inr st'"
  shows "s_nb_capped st' = s_nb_capped st + (if over_cap mr c fs i then 2 else 0)"
  using assms by (auto simp: seg_step_def over_cap_def Let_def split: if_splits)

lemma seg_loop_nb_capped:
  "seg_loop mr c fs u js st = Inr st' \<Longrightarrow>
   s_nb_capped st' = s_nb_capped st + 2 * int (length (filter (over_cap mr c fs) js))"
proof (induction js arbitrary: st)
  case Nil
  then show ?case by simp
next
  case (Cons j js)
  from Cons.prems obtain st1 where step: "seg_step mr c fs u j st = Inr st1"
    and rest: "seg_loop mr c fs u js st1 = Inr st'"
    by (auto split: sum.splits)
  from Cons.IH [OF rest] seg_step_nb_capped [OF step] show ?case by simp
qed

text \<open>A returned dictionary comes from a loop that ran to its end.\<close>

lemma segment_InrD:
  assumes "segment fs e rr mv c = Inr r"
  obtains st where
    "seg_loop (where_diff 0 mv) c fs (int (length (remdups rr)) - 1) (loop_range mv)
       \<lparr>s_last_end_idx = py_round_half (where_diff 0 mv ! 0),
        s_rep = replicate (length rr) 0,
        s_rep_regions = replicate (length (where_diff 0 mv)) 0,
        s_nb_capped = 0, s_cur_rep = 1\<rparr> = Inr st"
    and "2 \<le> length (where_diff 0 mv)"
    and "r = \<lparr>emg = e,
              rep = slice_assign (s_rep st) (s_last_end_idx st)
                      (py_round_half (int (length e) + last (where_diff 0 mv)))
                      (to_int8 (s_cur_rep st)),
              move = mv,
              rep_regions =
                (s_rep_regions st)[length (where_diff 0 mv) - 2 := s_last_end_idx st,
                   length (where_diff 0 mv) - 1 :=
                     py_round_half (int (length e) + last (where_diff 0 mv)) - 1],
              nb_capped = s_nb_capped st\<rparr>"
  using assms
  by (auto simp: segment_def Let_def loop_range_def split: if_splits sum.splits)

text \<open>
  Claim C3. Whatever the streams and the cap, a returned truncation counter is even: it
  is twice the number of loop iterations whose rest was over the cap, each of which added
  2 to a counter that started at 0.
\<close>

theorem nb_capped_even:
  assumes "segment fs e rr mv c = Inr r"
  shows "even (nb_capped r) \<and>
         nb_capped r =
           2 * int (length (filter (over_cap (where_diff 0 mv) c fs) (loop_range mv)))"
proof -
  from assms obtain st where
    loop: "seg_loop (where_diff 0 mv) c fs (int (length (remdups rr)) - 1) (loop_range mv)
       \<lparr>s_last_end_idx = py_round_half (where_diff 0 mv ! 0),
        s_rep = replicate (length rr) 0,
        s_rep_regions = replicate (length (where_diff 0 mv)) 0,
        s_nb_capped = 0, s_cur_rep = 1\<rparr> = Inr st"
    and r: "nb_capped r = s_nb_capped st"
    by (rule segment_InrD) simp
  from seg_loop_nb_capped [OF loop] r show ?thesis by simp
qed

text \<open>Two gestures of two samples, two samples of rest between them, cap 0: the rest is
  over the cap once.\<close>

lemma segment_two_gestures_cap0:
  "segment 100 [(), (), (), (), (), (), (), ()] [0, 1, 1, 0, 0, 2, 2, 0]
     [0, 1, 1, 0, 0, 1, 1, 0] 0 =
   Inr \<lparr>emg = [(), (), (), (), (), (), (), ()], rep = [1, 1, 0, 0, 2, 2, 2, 0],
        move = [0, 1, 1, 0, 0, 1, 1, 0], rep_regions = [0, 1, 4, 6], nb_capped = 2\<rparr>"
  by code_simp

theorem nb_capped_even_witness:
  "segment 100 [(), (), (), (), (), (), (), ()] [0, 1, 1, 0, 0, 2, 2, 0]
     [0, 1, 1, 0, 0, 1, 1, 0] 0 =
   Inr \<lparr>emg = [(), (), (), (), (), (), (), ()], rep = [1, 1, 0, 0, 2, 2, 2, 0],
        move = [0, 1, 1, 0, 0, 1, 1, 0], rep_regions = [0, 1, 4, 6], nb_capped = 2\<rparr> \<and>
   even (nb_capped \<lparr>emg = [(), (), (), (), (), (), (), ()], rep = [1, 1, 0, 0, 2, 2, 2, 0],
        move = [0, 1, 1, 0, 0, 1, 1, 0], rep_regions = [0, 1, 4, 6], nb_capped = 2\<rparr>) \<and>
   length (filter (over_cap (where_diff 0 [0, 1, 1, 0, 0, 1, 1, 0]) 0 100)
             (loop_range [0, 1, 1, 0, 0, 1, 1, 0])) = 1"
  using nb_capped_even [OF segment_two_gestures_cap0] segment_two_gestures_cap0 by simp

subsection \<open>The labels of the repetition stream\<close>

lemma set_slice_assign: "set (slice_assign xs lo hi v) \<subseteq> insert v (set xs)"
proof -
  have "set (take l xs) \<subseteq> set xs" and "set (drop h xs) \<subseteq> set xs" for l h
    by (auto dest: in_set_takeD in_set_dropD)
  then show ?thesis
    by (auto simp: slice_assign_def Let_def dest: in_set_takeD in_set_dropD)
qed

lemma to_int8_le: "1 \<le> c \<Longrightarrow> to_int8 c \<le> c"
proof -
  assume "1 \<le> c"
  then have "(c + 128) mod 256 \<le> c + 128" by (intro zmod_le_nonneg_dividend) simp
  then show ?thesis by (simp add: to_int8_def)
qed

lemma seg_step_labels:
  assumes "seg_step mr c fs u i st = Inr st'" and "labels_within (max 1 u) st"
  shows "labels_within (max 1 u) st'"
proof -
  from assms(2) have cur: "1 \<le> s_cur_rep st" "s_cur_rep st \<le> max 1 u"
    and old: "\<forall>x \<in> set (s_rep st). x \<le> max 1 u"
    by (simp_all add: labels_within_def)
  from cur have v: "to_int8 (s_cur_rep st) \<le> max 1 u"
    using to_int8_le [of "s_cur_rep st"] by linarith
  have new: "\<forall>x \<in> set (slice_assign (s_rep st) lo hi (to_int8 (s_cur_rep st))). x \<le> max 1 u"
    for lo hi
    using set_slice_assign [of "s_rep st" lo hi "to_int8 (s_cur_rep st)"] old v by auto
  from assms(1) cur new show ?thesis
    by (auto simp: seg_step_def Let_def labels_within_def split: if_splits)
qed

lemma seg_loop_labels:
  "seg_loop mr c fs u js st = Inr st' \<Longrightarrow> labels_within (max 1 u) st \<Longrightarrow>
   labels_within (max 1 u) st'"
proof (induction js arbitrary: st)
  case Nil
  then show ?case by simp
next
  case (Cons j js)
  from Cons.prems(1) obtain st1 where step: "seg_step mr c fs u j st = Inr st1"
    and rest: "seg_loop mr c fs u js st1 = Inr st'"
    by (auto split: sum.splits)
  from seg_step_labels [OF step Cons.prems(2)] have "labels_within (max 1 u) st1" .
  with rest show ?case by (rule Cons.IH)
qed

lemma nb_unique_reps_le_cycle_length: "int (length (remdups rr)) - 1 \<le> cycle_length rr"
proof -
  have "set rr \<subseteq> insert 0 (set (filter (\<lambda>x. x \<noteq> 0) rr))" by auto
  then have "card (set rr) \<le> card (insert 0 (set (filter (\<lambda>x. x \<noteq> 0) rr)))"
    by (intro card_mono) simp_all
  also have "\<dots> \<le> Suc (card (set (filter (\<lambda>x. x \<noteq> 0) rr)))"
    by (simp add: card_insert_if)
  finally show ?thesis
    by (simp add: cycle_length_def length_remdups_card_conv)
qed

text \<open>
  Claim C5, amended. No sample of a returned repetition stream carries an index greater
  than the cycle length, or greater than 1 when the raw stream has no nonzero value: the
  first block is labelled 1 before the index is ever compared with the cycle length.
\<close>

theorem rep_labels_within_cycle:
  assumes "segment fs e rr mv c = Inr r"
  shows "\<forall>x \<in> set (rep r). x \<le> max 1 (cycle_length rr)"
proof -
  define u where "u = int (length (remdups rr)) - 1"
  from assms obtain st where
    loop: "seg_loop (where_diff 0 mv) c fs u (loop_range mv)
       \<lparr>s_last_end_idx = py_round_half (where_diff 0 mv ! 0),
        s_rep = replicate (length rr) 0,
        s_rep_regions = replicate (length (where_diff 0 mv)) 0,
        s_nb_capped = 0, s_cur_rep = 1\<rparr> = Inr st"
    and r: "rep r = slice_assign (s_rep st) (s_last_end_idx st)
                      (py_round_half (int (length e) + last (where_diff 0 mv)))
                      (to_int8 (s_cur_rep st))"
    unfolding u_def by (rule segment_InrD) simp
  have "labels_within (max 1 u) \<lparr>s_last_end_idx = py_round_half (where_diff 0 mv ! 0),
        s_rep = replicate (length rr) 0,
        s_rep_regions = replicate (length (where_diff 0 mv)) 0,
        s_nb_capped = 0, s_cur_rep = 1\<rparr>"
    by (auto simp: labels_within_def)
  with loop have inv: "labels_within (max 1 u) st" by (rule seg_loop_labels)
  then have "to_int8 (s_cur_rep st) \<le> max 1 u"
    using to_int8_le [of "s_cur_rep st"] by (simp add: labels_within_def)
  with inv have "\<forall>x \<in> set (rep r). x \<le> max 1 u"
    unfolding r using set_slice_assign [of "s_rep st"] by (fastforce simp: labels_within_def)
  moreover have "max 1 u \<le> max 1 (cycle_length rr)"
    using nb_unique_reps_le_cycle_length [of rr] by (simp add: u_def)
  ultimately show ?thesis by fastforce
qed

text \<open>A raw repetition stream of zeros has cycle length 0, and the one block is labelled 1.\<close>

lemma segment_no_raw_rep:
  "segment 100 [(), (), (), ()] [0, 0, 0, 0] [0, 1, 1, 0] 999 =
   Inr \<lparr>emg = [(), (), (), ()], rep = [1, 1, 1, 0], move = [0, 1, 1, 0],
        rep_regions = [0, 2], nb_capped = 0\<rparr>"
  by code_simp

theorem rep_labels_witness:
  "segment 100 [(), (), (), (), (), (), (), ()] [0, 1, 1, 0, 0, 2, 2, 0]
     [0, 1, 1, 0, 0, 1, 1, 0] 0 =
   Inr \<lparr>emg = [(), (), (), (), (), (), (), ()], rep = [1, 1, 0, 0, 2, 2, 2, 0],
        move = [0, 1, 1, 0, 0, 1, 1, 0], rep_regions = [0, 1, 4, 6], nb_capped = 2\<rparr> \<and>
   list_all (\<lambda>x. x \<le> max 1 (cycle_length [0, 1, 1, 0, 0, 2, 2, 0])) [1, 1, 0, 0, 2, 2, 2, 0]"
  using rep_labels_within_cycle [OF segment_two_gestures_cap0] segment_two_gestures_cap0
  by (simp add: list_all_iff)

theorem rep_labels_counterexample:
  "segment 100 [(), (), (), ()] [0, 0, 0, 0] [0, 1, 1, 0] 999 =
   Inr \<lparr>emg = [(), (), (), ()], rep = [1, 1, 1, 0], move = [0, 1, 1, 0],
        rep_regions = [0, 2], nb_capped = 0\<rparr> \<and>
   cycle_length [0, 0, 0, 0] = 0 \<and> [1, 1, 1, 0] ! 0 > cycle_length [0, 0, 0, 0]"
  using segment_no_raw_rep by (simp add: cycle_length_def)

subsection \<open>The transition table\<close>

lemma where_diff_bounds:
  "x \<in> set (where_diff k xs) \<Longrightarrow> int k \<le> x \<and> x + 2 \<le> int k + int (length xs)"
  by (induction k xs rule: where_diff.induct) (auto split: if_splits)

lemma where_diff_sorted: "sorted_wrt (<) (where_diff k xs)"
proof (induction k xs rule: where_diff.induct)
  case (1 k x y ys)
  have "int k < z" if "z \<in> set (where_diff (Suc k) (y # ys))" for z
    using where_diff_bounds [OF that] by simp
  with 1 show ?case by auto
qed simp_all

lemma where_diff_nth_less:
  "i < j \<Longrightarrow> j < length (where_diff k xs) \<Longrightarrow> where_diff k xs ! i < where_diff k xs ! j"
  using where_diff_sorted [of k xs] by (simp add: sorted_wrt_iff_nth_less)

lemma where_diff_nth_bounds:
  "j < length (where_diff 0 xs) \<Longrightarrow>
   0 \<le> where_diff 0 xs ! j \<and> where_diff 0 xs ! j + 2 \<le> int (length xs)"
  using where_diff_bounds [of "where_diff 0 xs ! j" 0 xs] by simp

text \<open>Streams that alternate between rest and gestures, start and end at rest and hold a
  gesture are valid.\<close>

lemma where_diff_parity:
  "rest_alternates xs \<Longrightarrow> xs \<noteq> [] \<Longrightarrow>
   even (length (where_diff k xs)) \<longleftrightarrow> (hd xs = 0 \<longleftrightarrow> last xs = 0)"
  by (induction k xs rule: where_diff.induct) auto

lemma where_diff_nonempty:
  "\<exists>x \<in> set xs. x \<noteq> hd xs \<Longrightarrow> where_diff k xs \<noteq> []"
  by (induction k xs rule: where_diff.induct) (auto split: if_splits)

lemma rest_alternating_stream_valid:
  assumes "rest_alternates mv" and "mv \<noteq> []" and "hd mv = 0" and "last mv = 0"
    and "\<exists>x \<in> set mv. x \<noteq> 0"
  shows "valid_move_stream mv"
proof -
  from assms(1-4) have ev: "even (length (where_diff 0 mv))"
    by (simp add: where_diff_parity)
  from assms(3,5) have "where_diff 0 mv \<noteq> []"
    by (intro where_diff_nonempty) simp
  then have "length (where_diff 0 mv) \<noteq> 0" by simp
  moreover from ev have "length (where_diff 0 mv) \<noteq> 1" by auto
  ultimately have "2 \<le> length (where_diff 0 mv)" by linarith
  with ev show ?thesis by (simp add: valid_move_stream_def)
qed

subsection \<open>The sum of the block lengths\<close>

lemma block_end_gap:
  assumes "over_cap mr c fs i \<longrightarrow>
             2 * (c * fs) \<le> mr ! (2 * (i + 1)) - mr ! (2 * (i + 1) - 1)"
  shows "block_end mr c fs i + 1 + int (truncation_gap mr c fs i) = block_start mr c fs (Suc i)"
  using assms by (simp add: block_end_def truncation_gap_def)

lemma block_sum_telescope:
  assumes "\<forall>i<k. over_cap mr c fs i \<longrightarrow>
             2 * (c * fs) \<le> mr ! (2 * (i + 1)) - mr ! (2 * (i + 1) - 1)"
  shows "sum_list (map (\<lambda>j. block_end mr c fs j - block_start mr c fs j + 1) [0..<k]) =
         block_start mr c fs k - block_start mr c fs 0
         - int (sum_list (map (truncation_gap mr c fs) [0..<k]))"
  using assms
proof (induction k)
  case 0
  show ?case by simp
next
  case (Suc k)
  then have fit: "over_cap mr c fs k \<longrightarrow>
             2 * (c * fs) \<le> mr ! (2 * (k + 1)) - mr ! (2 * (k + 1) - 1)"
    by simp
  from Suc have IH: "sum_list (map (\<lambda>j. block_end mr c fs j - block_start mr c fs j + 1) [0..<k]) =
         block_start mr c fs k - block_start mr c fs 0
         - int (sum_list (map (truncation_gap mr c fs) [0..<k]))"
    by simp
  from block_end_gap [OF fit]
  have "block_end mr c fs k + 1 = block_start mr c fs (Suc k) - int (truncation_gap mr c fs k)"
    by (simp del: block_start.simps)
  with IH show ?case by (simp del: block_start.simps)
qed

lemma loop_range_valid:
  assumes "valid_move_stream mv"
  shows "loop_range mv = [0..<length (where_diff 0 mv) div 2 - 1]"
proof -
  from assms have "even (int (length (where_diff 0 mv)))"
    by (simp add: valid_move_stream_def)
  then have "py_round_half (int (length (where_diff 0 mv))) = int (length (where_diff 0 mv)) div 2"
    by (rule py_round_half_even)
  also have "\<dots> = int (length (where_diff 0 mv) div 2)" by (simp add: zdiv_int)
  finally show ?thesis
    by (simp add: loop_range_def nat_diff_distrib')
qed

text \<open>
  Claim C1, amended. Take a valid movement stream as long as the signal, a cap that is not
  negative, and let every rest the loop truncates hold at least twice the cap. Then the
  segmenter returns, and the block lengths of its region table sum to the signal length
  minus the samples left unassigned by truncation, minus the samples before the first
  block (it starts at the midpoint between sample 0 and the first transition) and the
  samples after the last block (it ends at the midpoint between the last transition and
  the end of the signal). The three counts are not negative, and the samples a
  truncation leaves unassigned are those between the truncated row and the next one.
\<close>

theorem block_length_sum:
  assumes "valid_move_stream mv" and "0 \<le> c" and "0 < fs" and "length e = length mv"
    and "caps_fit mv c fs"
  shows "\<exists>r. segment fs e rr mv c = Inr r \<and>
           sum_list (block_lengths (rep_regions r)) =
             int (length e)
             - int (sum_list (map (truncation_gap (where_diff 0 mv) c fs) (loop_range mv)))
             - py_round_half (where_diff 0 mv ! 0)
             - (int (length e) - py_round_half (int (length e) + last (where_diff 0 mv))) \<and>
           0 \<le> py_round_half (where_diff 0 mv ! 0) \<and>
           0 \<le> int (length e) - py_round_half (int (length e) + last (where_diff 0 mv)) \<and>
           (\<forall>j. j + 1 < length (rep_regions r) div 2 \<longrightarrow>
              rep_regions r ! (2 * j + 1) + 1 + int (truncation_gap (where_diff 0 mv) c fs j) =
                rep_regions r ! (2 * (j + 1)))"
proof -
  define mr where "mr = where_diff 0 mv"
  define N where "N = length mr div 2"
  define end_idx where "end_idx = py_round_half (int (length e) + last mr)"
  from assms(1) have m2: "2 \<le> length mr" and ev: "even (length mr)"
    by (simp_all add: valid_move_stream_def mr_def)
  then have m: "length mr = 2 * N" and N: "1 \<le> N" by (auto simp: N_def)
  have range: "loop_range mv = [0..<N - 1]"
    using loop_range_valid [OF assms(1)] by (simp add: mr_def N_def)
  have fit: "\<forall>i<N - 1. over_cap mr c fs i \<longrightarrow>
               2 * (c * fs) \<le> mr ! (2 * (i + 1)) - mr ! (2 * (i + 1) - 1)"
    using assms(5) unfolding caps_fit_def range mr_def [symmetric] by simp
  from segment_regions [OF assms(1), of fs e rr c] obtain r where
    seg: "segment fs e rr mv c = Inr r"
    and len: "length (rep_regions r) = length mr"
    and starts: "\<forall>j<N. rep_regions r ! (2 * j) = block_start mr c fs j"
    and ends: "\<forall>j. j + 1 < N \<longrightarrow> rep_regions r ! (2 * j + 1) = block_end mr c fs j"
    and final: "rep_regions r ! (length mr - 1) = end_idx - 1"
    unfolding mr_def N_def end_idx_def by blast
  have split: "[0..<N] = [0..<N - 1] @ [N - 1]"
  proof -
    from N obtain n where "N = Suc n" by (cases N) auto
    then show ?thesis by simp
  qed
  have inner: "map (\<lambda>i. rep_regions r ! (2 * i + 1) - rep_regions r ! (2 * i) + 1) [0..<N - 1] =
               map (\<lambda>j. block_end mr c fs j - block_start mr c fs j + 1) [0..<N - 1]"
    using starts ends by (intro map_cong) auto
  have lastrow: "rep_regions r ! (2 * (N - 1) + 1) - rep_regions r ! (2 * (N - 1)) + 1 =
                 end_idx - block_start mr c fs (N - 1)"
  proof -
    have "2 * (N - 1) + 1 = length mr - 1" using m N by simp
    with final have "rep_regions r ! (2 * (N - 1) + 1) = end_idx - 1" by simp
    moreover have "rep_regions r ! (2 * (N - 1)) = block_start mr c fs (N - 1)"
      using starts N by simp
    ultimately show ?thesis by simp
  qed
  have "block_lengths (rep_regions r) =
        map (\<lambda>i. rep_regions r ! (2 * i + 1) - rep_regions r ! (2 * i) + 1) [0..<N]"
    by (simp add: block_lengths_def len N_def)
  then have "sum_list (block_lengths (rep_regions r)) =
        sum_list (map (\<lambda>i. rep_regions r ! (2 * i + 1) - rep_regions r ! (2 * i) + 1) [0..<N - 1])
        + (rep_regions r ! (2 * (N - 1) + 1) - rep_regions r ! (2 * (N - 1)) + 1)"
    by (subst (asm) split) simp
  then have "sum_list (block_lengths (rep_regions r)) =
        sum_list (map (\<lambda>j. block_end mr c fs j - block_start mr c fs j + 1) [0..<N - 1])
        + (end_idx - block_start mr c fs (N - 1))"
    by (simp only: inner lastrow)
  also have "\<dots> = end_idx - block_start mr c fs 0
                  - int (sum_list (map (truncation_gap mr c fs) [0..<N - 1]))"
    unfolding block_sum_telescope [OF fit] by (simp del: block_start.simps)
  finally have total: "sum_list (block_lengths (rep_regions r)) =
      int (length e) - int (sum_list (map (truncation_gap mr c fs) (loop_range mv)))
        - py_round_half (mr ! 0) - (int (length e) - end_idx)"
    by (simp add: range)
  have lead: "0 \<le> py_round_half (mr ! 0)"
  proof -
    from m2 have "0 < length (where_diff 0 mv)" unfolding mr_def by linarith
    from where_diff_nth_bounds [OF this] have "0 \<le> mr ! 0" by (simp add: mr_def)
    with py_round_half_bounds [of "mr ! 0"] show ?thesis by linarith
  qed
  have trail: "0 \<le> int (length e) - end_idx"
  proof -
    from m2 have "mr \<noteq> []" by auto
    then have l: "last mr = mr ! (length mr - 1)" by (rule last_conv_nth)
    from m2 have "length mr - 1 < length (where_diff 0 mv)" unfolding mr_def by linarith
    from where_diff_nth_bounds [OF this] l assms(4)
    have "last mr + 2 \<le> int (length e)" by (simp add: mr_def)
    with py_round_half_bounds [of "int (length e) + last mr"] show ?thesis
      unfolding end_idx_def by linarith
  qed
  have gaps: "rep_regions r ! (2 * j + 1) + 1 + int (truncation_gap mr c fs j) =
                rep_regions r ! (2 * (j + 1))" if "j + 1 < N" for j
  proof -
    from that fit have "over_cap mr c fs j \<longrightarrow>
               2 * (c * fs) \<le> mr ! (2 * (j + 1)) - mr ! (2 * (j + 1) - 1)"
      by simp
    from block_end_gap [OF this]
    have "block_end mr c fs j + 1 + int (truncation_gap mr c fs j) = block_start mr c fs (Suc j)" .
    moreover from ends that have "rep_regions r ! (2 * j + 1) = block_end mr c fs j" by simp
    moreover from starts [rule_format, of "Suc j"] that
    have "rep_regions r ! (2 * (Suc j)) = block_start mr c fs (Suc j)"
      by (simp del: block_start.simps)
    ultimately show ?thesis by (simp del: block_start.simps)
  qed
  have "length (rep_regions r) div 2 = N" using len m by simp
  with seg total lead trail gaps show ?thesis
    unfolding mr_def [symmetric] end_idx_def [symmetric] by (intro exI [of _ r]) simp
qed

text \<open>One gesture of two samples in the middle of ten, default cap: no truncation, and four
  samples outside the one block.\<close>

lemma segment_one_gesture:
  "segment 100 [(), (), (), (), (), (), (), (), (), ()] [0, 0, 0, 0, 1, 1, 0, 0, 0, 0]
     [0, 0, 0, 0, 1, 1, 0, 0, 0, 0] 999 =
   Inr \<lparr>emg = [(), (), (), (), (), (), (), (), (), ()], rep = [0, 0, 1, 1, 1, 1, 1, 1, 0, 0],
        move = [0, 0, 0, 0, 1, 1, 0, 0, 0, 0], rep_regions = [2, 7], nb_capped = 0\<rparr>"
  by code_simp

text \<open>
  Two gestures with a rest of 300 samples between them, at 100 Hz and with a cap of one
  second: 100 samples are kept on either side of the rest and the 100 in the middle are
  left unassigned, as is the last sample of the signal.
\<close>

lemma segment_long_rest:
  "map_sum id rep_regions
     (segment 100 (replicate 306 ()) (replicate 306 0)
        ([0, 1, 1] @ replicate 300 0 @ [1, 1, 0]) 1) = Inr [0, 101, 202, 304]"
  by code_simp

theorem block_length_sum_witness:
  "valid_move_stream ([0, 1, 1] @ replicate 300 0 @ [1, 1, 0]) \<and>
   (0::int) \<le> 1 \<and> (0::int) < 100 \<and>
   length (replicate 306 ()) = length ([0, 1, 1] @ replicate 300 0 @ [1, 1, 0 :: int]) \<and>
   caps_fit ([0, 1, 1] @ replicate 300 0 @ [1, 1, 0]) 1 100 \<and>
   sum_list (block_lengths [0, 101, 202, 304]) = 306 - 100 - 0 - 1 \<and>
   sum_list (map (truncation_gap (where_diff 0 ([0, 1, 1] @ replicate 300 0 @ [1, 1, 0])) 1 100)
         (loop_range ([0, 1, 1] @ replicate 300 0 @ [1, 1, 0]))) = 100 \<and>
   py_round_half (where_diff 0 ([0, 1, 1] @ replicate 300 0 @ [1, 1, 0]) ! 0) = 0 \<and>
   int (length (replicate 306 ()))
     - py_round_half (int (length (replicate 306 ()))
         + last (where_diff 0 ([0, 1, 1] @ replicate 300 0 @ [1, 1, 0]))) = 1"
proof -
  define mv :: "int list" where "mv = [0, 1, 1] @ replicate 300 0 @ [1, 1, 0]"
  have v: "valid_move_stream mv"
    unfolding mv_def by code_simp
  have f: "caps_fit mv 1 100"
    unfolding mv_def by code_simp
  have g: "sum_list (map (truncation_gap (where_diff 0 mv) 1 100) (loop_range mv)) = 100"
    unfolding mv_def by code_simp
  have lead: "py_round_half (where_diff 0 mv ! 0) = 0"
    unfolding mv_def by code_simp
  have trail: "int (length (replicate 306 ()))
      - py_round_half (int (length (replicate 306 ())) + last (where_diff 0 mv)) = 1"
    unfolding mv_def by code_simp
  have l: "length (replicate 306 ()) = length mv"
    unfolding mv_def by simp
  from block_length_sum [where mv = mv and c = 1 and fs = 100 and e = "replicate 306 ()"
      and rr = "replicate 306 0", OF v _ _ l f]
  obtain r where seg: "segment 100 (replicate 306 ()) (replicate 306 0) mv 1 = Inr r"
    and total: "sum_list (block_lengths (rep_regions r)) =
             int (length (replicate 306 ()))
             - int (sum_list (map (truncation_gap (where_diff 0 mv) 1 100) (loop_range mv)))
             - py_round_half (where_diff 0 mv ! 0)
             - (int (length (replicate 306 ()))
                - py_round_half (int (length (replicate 306 ())) + last (where_diff 0 mv)))"
    by auto
  from seg segment_long_rest have "rep_regions r = [0, 101, 202, 304]"
    by (simp add: mv_def)
  with total have "sum_list (block_lengths [0, 101, 202, 304]) = 306 - 100 - 0 - 1"
    by (simp only: g lead trail) simp
  with v f g lead trail l show ?thesis unfolding mv_def by simp
qed

theorem block_length_sum_counterexample:
  "segment 100 [(), (), (), (), (), (), (), (), (), ()] [0, 0, 0, 0, 1, 1, 0, 0, 0, 0]
     [0, 0, 0, 0, 1, 1, 0, 0, 0, 0] 999 =
   Inr \<lparr>emg = [(), (), (), (), (), (), (), (), (), ()], rep = [0, 0, 1, 1, 1, 1, 1, 1, 0, 0],
        move = [0, 0, 0, 0, 1, 1, 0, 0, 0, 0], rep_regions = [2, 7], nb_capped = 0\<rparr> \<and>
   valid_move_stream [0, 0, 0, 0, 1, 1, 0, 0, 0, 0] \<and>
   sum_list (block_lengths [2, 7]) = 6 \<and>
   int (length [(), (), (), (), (), (), (), (), (), ()])
     - int (sum_list (map (truncation_gap (where_diff 0 [0, 0, 0, 0, 1, 1, 0, 0, 0, 0]) 999 100)
         (loop_range [0, 0, 0, 0, 1, 1, 0, 0, 0, 0]))) = 10"
  using segment_one_gesture
  by (simp add: valid_move_stream_def block_lengths_def loop_range_def py_round_half_def)

subsection \<open>The rows of the region table\<close>

lemma midpoint_idx_bounds:
  assumes "mr ! (2 * i + 1) < mr ! (2 * i + 2)"
  shows "mr ! (2 * i + 1) + 1 \<le> midpoint_idx mr i" and "midpoint_idx mr i \<le> mr ! (2 * i + 2) + 1"
    and "mr ! (2 * i + 1) + 2 \<le> mr ! (2 * i + 2) \<Longrightarrow> midpoint_idx mr i \<le> mr ! (2 * i + 2)"
  using assms py_round_half_bounds [of "mr ! (2 * i + 1) + mr ! (2 * i + 2)"]
  by (simp_all add: midpoint_idx_def)

lemma block_start_le:
  assumes inc: "\<And>i j. i < j \<Longrightarrow> j < length mr \<Longrightarrow> mr ! i < mr ! j"
    and nonneg: "0 \<le> mr ! 0" and cap: "0 \<le> c * fs" and j: "2 * j < length mr"
  shows "block_start mr c fs j \<le> mr ! (2 * j) + 1"
    and "c * fs \<le> 1 \<Longrightarrow> block_start mr c fs j \<le> mr ! (2 * j)"
proof -
  have "block_start mr c fs j \<le> mr ! (2 * j) + 1 \<and>
        (c * fs \<le> 1 \<longrightarrow> block_start mr c fs j \<le> mr ! (2 * j))"
  proof (cases j)
    case 0
    with nonneg py_round_half_bounds [of "mr ! 0"] show ?thesis by simp
  next
    case (Suc i)
    with j have lt: "mr ! (2 * i + 1) < mr ! (2 * i + 2)" by (intro inc) simp_all
    note mid = midpoint_idx_bounds [OF lt]
    show ?thesis
    proof (cases "over_cap mr c fs i")
      case True
      with cap Suc show ?thesis by simp
    next
      case False
      then have "midpoint_idx mr i - mr ! (2 * i + 1) \<le> c * fs"
        by (simp add: over_cap_def trailing_rest_samps_def)
      with mid lt False Suc show ?thesis by auto
    qed
  qed
  then show "block_start mr c fs j \<le> mr ! (2 * j) + 1"
    and "c * fs \<le> 1 \<Longrightarrow> block_start mr c fs j \<le> mr ! (2 * j)" by simp_all
qed

lemma block_row_nonempty:
  assumes inc: "\<And>i j. i < j \<Longrightarrow> j < length mr \<Longrightarrow> mr ! i < mr ! j"
    and nonneg: "0 \<le> mr ! 0" and cap: "0 \<le> c * fs" and j: "2 * j + 2 < length mr"
  shows "block_start mr c fs j \<le> block_end mr c fs j"
proof -
  from j have j': "2 * j < length mr" by simp
  note st = block_start_le [OF inc nonneg cap j']
  from j have lt0: "mr ! (2 * j) < mr ! (2 * j + 1)" by (intro inc) simp_all
  from j have lt: "mr ! (2 * j + 1) < mr ! (2 * j + 2)" by (intro inc) simp_all
  note mid = midpoint_idx_bounds [OF lt]
  show ?thesis
  proof (cases "over_cap mr c fs j")
    case True
    then have e: "block_end mr c fs j = mr ! (2 * j + 1) + c * fs - 1"
      by (simp add: block_end_def)
    show ?thesis
    proof (cases "c * fs \<le> 1")
      case True
      with st(2) lt0 cap e show ?thesis by simp
    next
      case False
      with st(1) lt0 e show ?thesis by simp
    qed
  next
    case False
    then have "block_end mr c fs j = midpoint_idx mr j - 1" by (simp add: block_end_def)
    with st(1) lt0 mid(1) show ?thesis by simp
  qed
qed

lemma block_start_strict:
  assumes inc: "\<And>i j. i < j \<Longrightarrow> j < length mr \<Longrightarrow> mr ! i < mr ! j"
    and nonneg: "0 \<le> mr ! 0" and cap: "0 \<le> c * fs" and j: "2 * j + 2 < length mr"
  shows "block_start mr c fs j < block_start mr c fs (Suc j)"
proof -
  from j have j': "2 * j < length mr" by simp
  note st = block_start_le [OF inc nonneg cap j']
  from j have lt0: "mr ! (2 * j) < mr ! (2 * j + 1)" by (intro inc) simp_all
  from j have lt: "mr ! (2 * j + 1) < mr ! (2 * j + 2)" by (intro inc) simp_all
  note mid = midpoint_idx_bounds [OF lt]
  show ?thesis
  proof (cases "over_cap mr c fs j")
    case False
    with st(1) lt0 mid(1) show ?thesis by simp
  next
    case True
    then have over: "c * fs < midpoint_idx mr j - mr ! (2 * j + 1)"
      by (simp add: over_cap_def trailing_rest_samps_def)
    from True have s: "block_start mr c fs (Suc j) = mr ! (2 * j + 2) - c * fs" by simp
    show ?thesis
    proof (cases "mr ! (2 * j + 1) + 2 \<le> mr ! (2 * j + 2)")
      case True
      with mid(3) over st(1) lt0 s show ?thesis by simp
    next
      case False
      with lt have b: "mr ! (2 * j + 2) = mr ! (2 * j + 1) + 1" by simp
      with mid(2) over have "c * fs \<le> 1" by simp
      with st(2) have "block_start mr c fs j \<le> mr ! (2 * j)" by simp
      with lt0 b \<open>c * fs \<le> 1\<close> s show ?thesis by simp
    qed
  qed
qed

lemma last_row_nonempty:
  assumes inc: "\<And>i j. i < j \<Longrightarrow> j < length mr \<Longrightarrow> mr ! i < mr ! j"
    and nonneg: "0 \<le> mr ! 0" and cap: "0 \<le> c * fs"
    and m: "length mr = 2 * N" and N: "1 \<le> N" and n: "last mr + 2 \<le> n"
  shows "block_start mr c fs (N - 1) \<le> py_round_half (n + last mr) - 1"
proof -
  from m N have j': "2 * (N - 1) < length mr" by simp
  note st = block_start_le(1) [OF inc nonneg cap j']
  from m N have "mr ! (2 * (N - 1)) < mr ! (2 * (N - 1) + 1)" by (intro inc) simp_all
  moreover have "last mr = mr ! (2 * (N - 1) + 1)"
  proof -
    from m N have idx: "length mr - 1 = 2 * (N - 1) + 1" and ne: "mr \<noteq> []" by auto
    from ne have "last mr = mr ! (length mr - 1)" by (rule last_conv_nth)
    then show ?thesis by (simp only: idx)
  qed
  ultimately show ?thesis
    using st n py_round_half_bounds [of "n + last mr"] by simp
qed

text \<open>
  Claim C4, amended. For a valid movement stream as long as the signal and a cap that is
  not negative, the segmenter returns a region table whose rows are non-empty and in
  strictly ascending start order; a row starts right after the row before it ends
  wherever the rest between them is within the cap, so a table with no truncation
  (\<open>nb_capped = 0\<close>) is contiguous and non-overlapping throughout.
\<close>

theorem regions_ordered:
  assumes "valid_move_stream mv" and "0 \<le> c" and "0 < fs" and "length e = length mv"
  shows "\<exists>r. segment fs e rr mv c = Inr r \<and>
           length (rep_regions r) = length (where_diff 0 mv) \<and>
           (\<forall>j < length (rep_regions r) div 2.
              rep_regions r ! (2 * j) \<le> rep_regions r ! (2 * j + 1)) \<and>
           (\<forall>j. j + 1 < length (rep_regions r) div 2 \<longrightarrow>
              rep_regions r ! (2 * j) < rep_regions r ! (2 * (j + 1))) \<and>
           (\<forall>j. j + 1 < length (rep_regions r) div 2 \<longrightarrow>
              \<not> over_cap (where_diff 0 mv) c fs j \<longrightarrow>
              rep_regions r ! (2 * j + 1) + 1 = rep_regions r ! (2 * (j + 1))) \<and>
           (nb_capped r = 0 \<longrightarrow>
              (\<forall>j. j + 1 < length (rep_regions r) div 2 \<longrightarrow>
                 rep_regions r ! (2 * j + 1) + 1 = rep_regions r ! (2 * (j + 1))))"
proof -
  define mr where "mr = where_diff 0 mv"
  define N where "N = length mr div 2"
  define end_idx where "end_idx = py_round_half (int (length e) + last mr)"
  from assms(1) have m2: "2 \<le> length mr" and ev: "even (length mr)"
    by (simp_all add: valid_move_stream_def mr_def)
  then have m: "length mr = 2 * N" and N: "1 \<le> N" by (auto simp: N_def)
  have inc: "\<And>i j. i < j \<Longrightarrow> j < length mr \<Longrightarrow> mr ! i < mr ! j"
    unfolding mr_def by (rule where_diff_nth_less)
  have nonneg: "0 \<le> mr ! 0"
  proof -
    from m2 have "0 < length (where_diff 0 mv)" unfolding mr_def by linarith
    from where_diff_nth_bounds [OF this] show ?thesis by (simp add: mr_def)
  qed
  from assms(2,3) have cap: "0 \<le> c * fs" by simp
  have n: "last mr + 2 \<le> int (length e)"
  proof -
    from m2 have "mr \<noteq> []" by auto
    then have l: "last mr = mr ! (length mr - 1)" by (rule last_conv_nth)
    from m2 have "length mr - 1 < length (where_diff 0 mv)" unfolding mr_def by linarith
    from where_diff_nth_bounds [OF this] l assms(4)
    show ?thesis by (simp add: mr_def)
  qed
  from segment_regions [OF assms(1), of fs e rr c] obtain r where
    seg: "segment fs e rr mv c = Inr r"
    and len: "length (rep_regions r) = length mr"
    and starts: "\<forall>j<N. rep_regions r ! (2 * j) = block_start mr c fs j"
    and ends: "\<forall>j. j + 1 < N \<longrightarrow> rep_regions r ! (2 * j + 1) = block_end mr c fs j"
    and final: "rep_regions r ! (length mr - 1) = end_idx - 1"
    unfolding mr_def N_def end_idx_def by blast
  have lenN: "length (rep_regions r) div 2 = N" using len m by simp
  have nonempty: "rep_regions r ! (2 * j) \<le> rep_regions r ! (2 * j + 1)" if "j < N" for j
  proof (cases "j + 1 < N")
    case True
    with m have "2 * j + 2 < length mr" by simp
    from block_row_nonempty [OF inc nonneg cap this] starts ends True that
    show ?thesis by simp
  next
    case False
    with that have j: "j = N - 1" by simp
    from m N have "length mr - 1 = 2 * (N - 1) + 1" by simp
    with final have "rep_regions r ! (2 * (N - 1) + 1) = end_idx - 1" by simp
    moreover have "rep_regions r ! (2 * (N - 1)) = block_start mr c fs (N - 1)"
      using starts N by simp
    ultimately show ?thesis
      using last_row_nonempty [OF inc nonneg cap m N n] by (simp add: j end_idx_def)
  qed
  have ascending: "rep_regions r ! (2 * j) < rep_regions r ! (2 * (j + 1))" if "j + 1 < N" for j
  proof -
    from that m have "2 * j + 2 < length mr" by simp
    from block_start_strict [OF inc nonneg cap this]
    have "block_start mr c fs j < block_start mr c fs (Suc j)" .
    moreover from starts that have "rep_regions r ! (2 * j) = block_start mr c fs j" by simp
    moreover from starts [rule_format, of "Suc j"] that
    have "rep_regions r ! (2 * (Suc j)) = block_start mr c fs (Suc j)"
      by (simp del: block_start.simps)
    ultimately show ?thesis by (simp del: block_start.simps)
  qed
  have contiguous: "rep_regions r ! (2 * j + 1) + 1 = rep_regions r ! (2 * (j + 1))"
    if "j + 1 < N" and "\<not> over_cap mr c fs j" for j
  proof -
    from ends that have "rep_regions r ! (2 * j + 1) = block_end mr c fs j" by simp
    moreover from starts [rule_format, of "Suc j"] that
    have "rep_regions r ! (2 * (Suc j)) = block_start mr c fs (Suc j)"
      by (simp del: block_start.simps)
    ultimately show ?thesis using that(2) by (simp add: block_end_def)
  qed
  have untruncated: "\<not> over_cap mr c fs j" if "nb_capped r = 0" and "j + 1 < N" for j
  proof -
    from seg obtain st where
      loop: "seg_loop mr c fs (int (length (remdups rr)) - 1) (loop_range mv)
         \<lparr>s_last_end_idx = py_round_half (mr ! 0),
          s_rep = replicate (length rr) 0,
          s_rep_regions = replicate (length mr) 0,
          s_nb_capped = 0, s_cur_rep = 1\<rparr> = Inr st"
      and r: "nb_capped r = s_nb_capped st"
      unfolding mr_def by (rule segment_InrD) simp
    from seg_loop_nb_capped [OF loop] r that(1)
    have "filter (over_cap mr c fs) (loop_range mv) = []" by simp
    moreover from that(2) have "j \<in> set (loop_range mv)"
      by (simp add: loop_range_valid [OF assms(1)] mr_def [symmetric] N_def [symmetric])
    ultimately show ?thesis by (simp add: filter_empty_conv)
  qed
  have "length mr div 2 = N" using m by simp
  with seg len nonempty ascending contiguous untruncated show ?thesis
    unfolding mr_def [symmetric] by (intro exI [of _ r]) auto
qed

theorem regions_ordered_witness:
  "valid_move_stream [0, 1, 1, 0, 0, 1, 1, 0] \<and> (0::int) \<le> 0 \<and> (0::int) < 100 \<and>
   length [(), (), (), (), (), (), (), ()] = length [0, 1, 1, 0, 0, 1, 1, 0 :: int] \<and>
   [0, 1, 4, 6] ! 0 \<le> [0, 1, 4, 6 :: int] ! 1 \<and> [0, 1, 4, 6] ! 2 \<le> [0, 1, 4, 6 :: int] ! 3 \<and>
   [0, 1, 4, 6] ! 0 < [0, 1, 4, 6 :: int] ! 2"
proof -
  have v: "valid_move_stream [0, 1, 1, 0, 0, 1, 1, 0]"
    by (simp add: valid_move_stream_def)
  from regions_ordered [OF v, of 0 100 "[(), (), (), (), (), (), (), ()]"
      "[0, 1, 1, 0, 0, 2, 2, 0]"]
  have "(\<forall>j<2. [0, 1, 4, 6] ! (2 * j) \<le> [0, 1, 4, 6 :: int] ! (2 * j + 1)) \<and>
        (\<forall>j. j + 1 < 2 \<longrightarrow> [0, 1, 4, 6] ! (2 * j) < [0, 1, 4, 6 :: int] ! (2 * (j + 1)))"
    by (simp only: segment_two_gestures_cap0) simp
  then show ?thesis using v by simp
qed

theorem regions_ordered_counterexample:
  "segment 100 [(), (), (), (), (), (), (), ()] [0, 1, 1, 0, 0, 2, 2, 0]
     [0, 1, 1, 0, 0, 1, 1, 0] 0 =
   Inr \<lparr>emg = [(), (), (), (), (), (), (), ()], rep = [1, 1, 0, 0, 2, 2, 2, 0],
        move = [0, 1, 1, 0, 0, 1, 1, 0], rep_regions = [0, 1, 4, 6], nb_capped = 2\<rparr> \<and>
   valid_move_stream [0, 1, 1, 0, 0, 1, 1, 0] \<and>
   [0, 1, 4, 6] ! 1 + 1 \<noteq> [0, 1, 4, 6 :: int] ! 2"
  using segment_two_gestures_cap0 by (simp add: valid_move_stream_def)

text \<open>
  Where the rest is over the cap the next row starts \<open>cap * fs\<close> samples before the next
  transition. With a rest of 199 samples and a cap of one second at 100 Hz that is the
  sample at which the row before it ends.
\<close>

lemma segment_overlap:
  "map_sum id rep_regions
     (segment 100 (replicate 204 ()) (replicate 204 0)
        ([0, 0, 1] @ replicate 199 0 @ [1, 0]) 1) = Inr [0, 101, 101, 202]"
  by code_simp

text \<open>That rest is truncated although it is shorter than twice the cap.\<close>

lemma segment_overlap_caps_unfit:
  "\<not> caps_fit ([0, 0, 1] @ replicate 199 0 @ [1, 0]) 1 100"
  by code_simp

subsection \<open>The import functions return the segmenter's result\<close>

text \<open>
  The four import functions differ in the sampling rate and in how they remap the movement
  labels; the dictionary they return is built by the same block, so what is proved of
  \<^verbatim>\<open>segment\<close> holds of each of them.
\<close>

lemma import_db1_returns_segment:
  assumes "import_db1 dt (emg1, rep1, move1) (emg2, rep2, move2) (emg3, rep3, move3) c = Inr r"
  shows "\<exists>mv. remap_db1 dt move1 move2 move3 = Inr mv \<and>
              segment 100 (emg1 @ emg2 @ emg3) (rep1 @ rep2 @ rep3) mv c = Inr r"
  using assms by (auto simp: import_db1_def split: sum.splits)

lemma import_db2_returns_segment:
  assumes "import_db2 (emg1, rep1, move1) (emg2, rep2, move2) (emg3, repetition3, stimulus3) c =
             Inr r"
  shows "\<exists>rep3 mv. set_last_zero repetition3 = Inr rep3 \<and>
              remap_db2 move1 move2 stimulus3 = Inr mv \<and>
              segment 2000 (emg1 @ emg2 @ emg3) (rep1 @ rep2 @ rep3) mv c = Inr r"
  using assms by (auto simp: import_db2_def split: sum.splits)

lemma import_db3_returns_segment:
  assumes "import_db3 dt (emg1, rep1, move1) (emg2, rep2, move2) (emg3, rep3, move3) c = Inr r"
  shows "\<exists>mv. remap_db3 dt move1 move2 move3 = Inr mv \<and>
              segment 2000 (emg1 @ emg2 @ emg3) (rep1 @ rep2 @ rep3) mv c = Inr r"
  using assms by (auto simp: import_db3_def split: sum.splits)

lemma import_returns_segment:
  assumes "import_db1 dt e1 e2 e3 c = Inr r \<or> import_db2 e1 e2 e3 c = Inr r \<or>
           import_db3 dt e1 e2 e3 c = Inr r \<or> import_subject dt e1 e2 e3 db c = Inr r"
  shows "\<exists>fs raw_rep mv. segment fs (fst e1 @ fst e2 @ fst e3) raw_rep mv c = Inr r"
proof -
  obtain emg1 rep1 move1 emg2 rep2 move2 emg3 rep3 move3 where
    e: "e1 = (emg1, rep1, move1)" "e2 = (emg2, rep2, move2)" "e3 = (emg3, rep3, move3)"
    by (metis prod.exhaust)
  from assms consider "import_db1 dt e1 e2 e3 c = Inr r" | "import_db2 e1 e2 e3 c = Inr r"
    | "import_db3 dt e1 e2 e3 c = Inr r"
    by (auto simp: import_subject_def split: if_splits)
  then show ?thesis
  proof cases
    case 1
    with import_db1_returns_segment [of dt emg1 rep1 move1 emg2 rep2 move2 emg3 rep3 move3 c r]
    show ?thesis unfolding e by auto
  next
    case 2
    with import_db2_returns_segment [of emg1 rep1 move1 emg2 rep2 move2 emg3 rep3 move3 c r]
    show ?thesis unfolding e by auto
  next
    case 3
    with import_db3_returns_segment [of dt emg1 rep1 move1 emg2 rep2 move2 emg3 rep3 move3 c r]
    show ?thesis unfolding e by auto
  qed
qed

lemma segment_counter_even:
  assumes "segment fs e rr mv c = Inr r"
  shows "even (nb_capped r)"
proof -
  from assms obtain st where
    loop: "seg_loop (where_diff 0 mv) c fs (int (length (remdups rr)) - 1) (loop_range mv)
       \<lparr>s_last_end_idx = py_round_half (where_diff 0 mv ! 0),
        s_rep = replicate (length rr) 0,
        s_rep_regions = replicate (length (where_diff 0 mv)) 0,
        s_nb_capped = 0, s_cur_rep = 1\<rparr> = Inr st"
    and r: "nb_capped r = s_nb_capped st"
    by (rule segment_InrD) simp
  from seg_loop_nb_capped [OF loop] r show ?thesis by simp
qed

lemma import_counter_even:
  assumes "import_db1 dt e1 e2 e3 c = Inr r \<or> import_db2 e1 e2 e3 c = Inr r \<or>
           import_db3 dt e1 e2 e3 c = Inr r \<or> import_subject dt e1 e2 e3 db c = Inr r"
  shows "even (nb_capped r)"
  using import_returns_segment [OF assms] segment_counter_even by blast

text \<open>
  Three sessions of four samples with one gesture each, read by \<^verbatim>\<open>import_db1\<close> with the
  default cap: eleven of the twelve samples are in a block, none was truncated.
\<close>

lemma import_db1_three_sessions:
  "import_db1 UInt8 ([(), (), (), ()], [0, 1, 1, 0], [0, 1, 1, 0])
     ([(), (), (), ()], [0, 1, 1, 0], [0, 1, 1, 0])
     ([(), (), (), ()], [0, 1, 1, 0], [0, 1, 1, 0]) 999 =
   Inr \<lparr>emg = [(), (), (), (), (), (), (), (), (), (), (), ()],
        rep = [1, 1, 1, 1, 1, 1, 1, 1, 1, 1, 1, 0],
        move = [0, 1, 1, 0, 0, 2, 2, 0, 0, 3, 3, 0],
        rep_regions = [0, 3, 4, 7, 8, 10], nb_capped = 0\<rparr>"
  by code_simp

section \<open>Properties of the label remapper\<close>

lemma to_int8_range: "- 128 \<le> to_int8 v \<and> to_int8 v \<le> 127"
  by (simp add: to_int8_def)

lemma to_int8_id: "- 128 \<le> v \<Longrightarrow> v \<le> 127 \<Longrightarrow> to_int8 v = v"
  by (simp add: to_int8_def)

lemma to_int8_cong: "(to_int8 v - v) mod 256 = 0"
proof -
  have "to_int8 v - v = (v + 128) mod 256 - (v + 128)" by (simp add: to_int8_def)
  also have "\<dots> mod 256 = 0" by (simp add: mod_diff_left_eq)
  finally show ?thesis .
qed

lemma to_int8_dvd: "256 dvd (to_int8 v - v)"
  using to_int8_cong [of v] by (simp add: mod_eq_0_iff_dvd)

lemma dtype_bits_ge: "8 \<le> dtype_bits dt"
  by (cases dt) simp_all

lemma mod_diff_dvd: "(m::int) dvd (a mod m - a)"
proof -
  have "(a mod m - a) mod m = 0" by (simp add: mod_diff_left_eq)
  then show ?thesis by (simp add: mod_eq_0_iff_dvd)
qed

lemma np_wrap_dvd: "2 ^ dtype_bits dt dvd (np_wrap dt v - v)"
proof (cases "is_signed dt")
  case True
  have "np_wrap dt v - v =
        (v + 2 ^ (dtype_bits dt - 1)) mod 2 ^ dtype_bits dt - (v + 2 ^ (dtype_bits dt - 1))"
    using True by (simp add: np_wrap_def)
  then show ?thesis by (simp only: mod_diff_dvd)
next
  case False
  then have "np_wrap dt v - v = v mod 2 ^ dtype_bits dt - v" by (simp add: np_wrap_def)
  then show ?thesis by (simp only: mod_diff_dvd)
qed

text \<open>The cast of a value an array of dtype \<open>dt\<close> holds for \<open>v\<close> differs from \<open>v\<close> by a
  multiple of 256: every dtype is at least eight bits wide.\<close>

lemma cast_wrap_dvd: "256 dvd (to_int8 (np_wrap dt v) - v)"
proof -
  have "(2::int) ^ 8 dvd 2 ^ dtype_bits dt"
    using dtype_bits_ge [of dt] by (rule le_imp_power_dvd)
  then have "(256::int) dvd 2 ^ dtype_bits dt" by simp
  from dvd_trans [OF this np_wrap_dvd] have "256 dvd (np_wrap dt v - v)" .
  from dvd_add [OF to_int8_dvd [of "np_wrap dt v"] this] show ?thesis by simp
qed

lemma int8_unique:
  assumes "(256::int) dvd (y - v)" and "- 128 \<le> y" and "y \<le> 127" and "- 128 \<le> v" and "v \<le> 127"
  shows "y = v"
proof -
  from assms(1) obtain k where k: "y - v = 256 * k" by (auto simp: dvd_def)
  with assms(2-5) have "k = 0" by linarith
  with k show ?thesis by simp
qed

lemma silently_wrapped_cast: "silently_wrapped v (to_int8 (np_wrap dt v))"
proof -
  have "(to_int8 (np_wrap dt v) - v) mod 256 = 0"
    using cast_wrap_dvd [of dt v] by (simp add: mod_eq_0_iff_dvd)
  moreover have "to_int8 (np_wrap dt v) = v" if "- 128 \<le> v" and "v \<le> 127"
    using cast_wrap_dvd [of dt v] to_int8_range [of "np_wrap dt v"] that
    by (intro int8_unique) simp_all
  ultimately show ?thesis
    using to_int8_range [of "np_wrap dt v"] by (simp add: silently_wrapped_def)
qed

lemma silently_wrapped_int8: "silently_wrapped v (to_int8 v)"
  using to_int8_range [of v] to_int8_cong [of v] to_int8_id [of v]
  by (simp add: silently_wrapped_def)

lemma silently_wrapped_offset:
  "list_all2 (\<lambda>x y. silently_wrapped (if x \<noteq> 0 then x + off else x) y)
     move_tmp (map to_int8 (add_offset dt off move_tmp))"
  by (simp add: add_offset_def list_all2_map2 list_all2_same silently_wrapped_cast
      silently_wrapped_int8)

lemma py_max_total: "xs \<noteq> [] \<Longrightarrow> \<exists>m. py_max xs = Inr m"
  by (cases xs) (simp_all add: py_max_def)

text \<open>The example of the specification: three sessions with labels 1 and 2.\<close>

lemma remap_db1_spec_example:
  "remap_db1 UInt8 [0, 1, 2, 0] [0, 1, 2, 0] [0, 1, 2, 0] =
     Inr [0, 1, 2, 0, 0, 3, 4, 0, 0, 5, 6, 0]"
  by code_simp

text \<open>A first file with no sample or with a single one makes \<open>max(move)\<close> raise.\<close>

lemma remap_db1_short_first_session:
  "remap_db1 dt [] move2 move3 = Inl ValueError"
  "remap_db1 dt [x] move2 move3 = Inl TypeError"
  by (simp_all add: remap_db1_def remapped_ids_db1_def py_max_squeezed_def py_max_def)

text \<open>
  Claim C8, amended. The label remapper of \<open>import_db1\<close> makes no range check and does
  not fail on overflow: whenever the first stream holds two samples or more it returns,
  whatever the ids. A rest sample keeps its label, and a gesture sample of a later session
  gets its raw id plus the maximum of the stream concatenated so far, as that stream is
  held in the raw arrays; every label wraps silently, that is, the label returned is the
  value of \<open>-128..127\<close> that differs from the label meant by a multiple of 256, which is
  the label meant when that is in \<open>-128..127\<close>.
\<close>

theorem remap_db1_wraps:
  assumes "2 \<le> length move1"
  shows "\<exists>max1 max2 mv1 mv2 mv3.
           py_max move1 = Inr max1 \<and>
           py_max (move1 @ add_offset dt max1 move2) = Inr max2 \<and>
           remap_db1 dt move1 move2 move3 = Inr (mv1 @ mv2 @ mv3) \<and>
           list_all2 silently_wrapped move1 mv1 \<and>
           list_all2 (\<lambda>x y. silently_wrapped (if x \<noteq> 0 then x + max1 else x) y) move2 mv2 \<and>
           list_all2 (\<lambda>x y. silently_wrapped (if x \<noteq> 0 then x + max2 else x) y) move3 mv3"
proof -
  from assms have ne: "move1 \<noteq> []" and len: "length move1 \<noteq> 1" by auto
  from py_max_total [OF ne] obtain max1 where max1: "py_max move1 = Inr max1" by blast
  from ne have "move1 @ add_offset dt max1 move2 \<noteq> []" by simp
  from py_max_total [OF this] obtain max2
    where max2: "py_max (move1 @ add_offset dt max1 move2) = Inr max2" by blast
  have "remap_db1 dt move1 move2 move3 =
        Inr (map to_int8 move1 @ map to_int8 (add_offset dt max1 move2) @
             map to_int8 (add_offset dt max2 move3))"
    using max1 max2 len
    by (simp add: remap_db1_def remapped_ids_db1_def py_max_squeezed_def Let_def)
  moreover have "list_all2 silently_wrapped move1 (map to_int8 move1)"
    by (simp add: list_all2_map2 list_all2_same silently_wrapped_int8)
  ultimately show ?thesis
    using max1 max2 silently_wrapped_offset [where off = max1 and move_tmp = move2 and dt = dt]
      silently_wrapped_offset [where off = max2 and move_tmp = move3 and dt = dt]
    by blast
qed

text \<open>Three sessions with gesture 50 in arrays of dtype uint8: the third session's id is
  150, returned as -106.\<close>

lemma remapped_ids_db1_fifty:
  "remapped_ids_db1 UInt8 [0, 50, 0] [0, 50, 0] [0, 50, 0] =
     Inr [0, 50, 0, 0, 100, 0, 0, 150, 0]"
  by code_simp

lemma remap_db1_fifty:
  "remap_db1 UInt8 [0, 50, 0] [0, 50, 0] [0, 50, 0] = Inr [0, 50, 0, 0, 100, 0, 0, - 106, 0]"
  by code_simp

theorem remap_db1_wraps_witness:
  "2 \<le> length [0, 50, 0 :: int] \<and>
   py_max [0, 50, 0] = Inr 50 \<and>
   py_max ([0, 50, 0] @ add_offset UInt8 50 [0, 50, 0]) = Inr 100 \<and>
   remap_db1 UInt8 [0, 50, 0] [0, 50, 0] [0, 50, 0] =
     Inr ([0, 50, 0] @ [0, 100, 0] @ [0, - 106, 0]) \<and>
   list_all2 silently_wrapped [0, 50, 0] [0, 50, 0] \<and>
   list_all2 (\<lambda>x y. silently_wrapped (if x \<noteq> 0 then x + 50 else x) y) [0, 50, 0] [0, 100, 0] \<and>
   list_all2 (\<lambda>x y. silently_wrapped (if x \<noteq> 0 then x + 100 else x) y) [0, 50, 0] [0, - 106, 0]"
proof -
  have len: "2 \<le> length [0, 50, 0 :: int]" by simp
  have m1: "py_max [0, 50, 0] = Inr 50" by code_simp
  have m2: "py_max ([0, 50, 0] @ add_offset UInt8 50 [0, 50, 0]) = Inr 100" by code_simp
  from remap_db1_wraps [OF len, where dt = UInt8 and ?move2.0 = "[0, 50, 0]"
      and ?move3.0 = "[0, 50, 0]"]
  obtain max1 max2 mv1 mv2 mv3 where
    p1: "py_max [0, 50, 0] = Inr max1"
    and p2: "py_max ([0, 50, 0] @ add_offset UInt8 max1 [0, 50, 0]) = Inr max2"
    and mv: "remap_db1 UInt8 [0, 50, 0] [0, 50, 0] [0, 50, 0] = Inr (mv1 @ mv2 @ mv3)"
    and v1: "list_all2 silently_wrapped [0, 50, 0] mv1"
    and v2: "list_all2 (\<lambda>x y. silently_wrapped (if x \<noteq> 0 then x + max1 else x) y)
               [0, 50, 0] mv2"
    and v3: "list_all2 (\<lambda>x y. silently_wrapped (if x \<noteq> 0 then x + max2 else x) y)
               [0, 50, 0] mv3"
    by blast
  from p1 have "max1 = 50" by (simp only: m1 sum.inject)
  with p2 have "max2 = 100" by (simp only: m2 sum.inject)
  note w1 = v1
  note w2 = v2 [unfolded \<open>max1 = 50\<close>]
  note w3 = v3 [unfolded \<open>max2 = 100\<close>]
  from w1 w2 w3 have l: "length mv1 = 3" "length mv2 = 3" "length mv3 = 3"
    by (auto dest: list_all2_lengthD)
  from mv have "mv1 @ mv2 @ mv3 = [0, 50, 0] @ [0, 100, 0] @ [0, - 106, 0]"
    by (simp add: remap_db1_fifty)
  with l have "mv1 = [0, 50, 0] \<and> mv2 = [0, 100, 0] \<and> mv3 = [0, - 106, 0]"
    by (simp add: append_eq_conv_conj)
  with w1 w2 w3 mv len m1 m2 show ?thesis by simp
qed

theorem remap_db1_overflow_counterexample:
  "remapped_ids_db1 UInt8 [0, 50, 0] [0, 50, 0] [0, 50, 0] =
     Inr [0, 50, 0, 0, 100, 0, 0, 150, 0] \<and>
   (127::int) < 150 \<and>
   remap_db1 UInt8 [0, 50, 0] [0, 50, 0] [0, 50, 0] = Inr [0, 50, 0, 0, 100, 0, 0, - 106, 0]"
  by code_simp

text \<open>
  The in-place addition wraps before the cast does. With ids 200, 100 and 1 in arrays of
  dtype uint8 the second session's id 300 is held as 44, so the maximum of the stream stays
  200 and the third session's id is 201, returned as -55.
\<close>

lemma remap_db1_in_place_wrap:
  "remapped_ids_db1 UInt8 [0, 200, 0] [0, 100, 0] [0, 1, 0] =
     Inr [0, 200, 0, 0, 44, 0, 0, 201, 0]"
  "remap_db1 UInt8 [0, 200, 0] [0, 100, 0] [0, 1, 0] = Inr [0, - 56, 0, 0, 44, 0, 0, - 55, 0]"
  by code_simp+

text \<open>
  The remappers of \<open>import_db2\<close> and \<open>import_db3\<close> make no range check either: they
  return whenever the stream they index or maximise is not empty, and every label they
  return went through the same cast.
\<close>

lemma remap_db2_no_check:
  assumes "stimulus3 \<noteq> []"
  shows "\<exists>mv. remap_db2 move1 move2 stimulus3 = Inr mv \<and> (\<forall>x \<in> set mv. - 128 \<le> x \<and> x \<le> 127)"
  using assms to_int8_range by (auto simp: remap_db2_def set_last_zero_def)

lemma remap_db3_no_check:
  assumes "move1 @ move2 \<noteq> []"
  shows "\<exists>mv. remap_db3 dt move1 move2 move3 = Inr mv \<and> (\<forall>x \<in> set mv. - 128 \<le> x \<and> x \<le> 127)"
proof -
  from py_max_total [OF assms] obtain last_mov where "py_max (move1 @ move2) = Inr last_mov"
    by blast
  then show ?thesis using to_int8_range by (auto simp: remap_db3_def)
qed

section \<open>Properties of the index lookup\<close>

lemma mset_concat_filter_eq:
  "distinct vs \<Longrightarrow>
   mset (concat (map (\<lambda>v. filter (\<lambda>p. g p = v) ps) vs)) = mset (filter (\<lambda>p. g p \<in> set vs) ps)"
proof (induction vs)
  case Nil
  show ?case by simp
next
  case (Cons v vs)
  then have IH: "mset (concat (map (\<lambda>v. filter (\<lambda>p. g p = v) ps) vs)) =
                 mset (filter (\<lambda>p. g p \<in> set vs) ps)"
    and v: "v \<notin> set vs" by simp_all
  have "mset (filter (\<lambda>p. g p = v) ps) + mset (filter (\<lambda>p. g p \<in> set vs) ps) =
        mset (filter (\<lambda>p. g p \<in> set (v # vs)) ps)"
    using v by (induction ps) auto
  with IH show ?case by simp
qed

lemma np_unique_props: "distinct (np_unique xs)" "set (np_unique xs) = set xs"
  by (simp_all add: np_unique_def)

lemma np_squeeze_Vec: "length ts \<noteq> 1 \<Longrightarrow> np_squeeze ts = Vec ts"
  by (cases ts rule: list.exhaust; simp add: np_squeeze_def split: list.splits)

lemma np_squeeze_VecD: "np_squeeze ts = Vec ts' \<Longrightarrow> ts' = ts"
  by (auto simp: np_squeeze_def split: list.splits)

lemma get_idxs_positions:
  assumes "distinct to_find" and "set in_array \<subseteq> set to_find"
  shows "mset (concat (map (np_where_eq in_array) to_find)) = mset [0..<length in_array]"
proof -
  have "mset (concat (map (\<lambda>v. filter (\<lambda>i. in_array ! i = v) [0..<length in_array]) to_find)) =
        mset (filter (\<lambda>i. in_array ! i \<in> set to_find) [0..<length in_array])"
    using assms(1) by (rule mset_concat_filter_eq)
  moreover have "filter (\<lambda>i. in_array ! i \<in> set to_find) [0..<length in_array] =
                 [0..<length in_array]"
    using assms(2) by (auto simp: filter_id_conv)
  ultimately show ?thesis by (simp add: np_where_eq_def [abs_def])
qed

text \<open>
  For an array of at least two elements the lookup of its unique values returns the
  positions grouped by value, ascending within a value, and they are a permutation of the
  index range.
\<close>

lemma get_idxs_unique_perm:
  assumes "2 \<le> length in_array"
  shows "get_idxs in_array (np_unique in_array) =
           Inr (Vec (concat (map (np_where_eq in_array) (np_unique in_array)))) \<and>
         mset (concat (map (np_where_eq in_array) (np_unique in_array))) =
           mset [0..<length in_array]"
proof -
  let ?p = "concat (map (np_where_eq in_array) (np_unique in_array))"
  have perm: "mset ?p = mset [0..<length in_array]"
    by (rule get_idxs_positions) (simp_all add: np_unique_props)
  then have "length ?p = length in_array"
    by (metis length_upt mset_eq_length minus_nat.diff_0)
  with assms have "np_squeeze ?p = Vec ?p" by (intro np_squeeze_Vec) simp
  moreover from assms have "np_unique in_array \<noteq> []"
    using np_unique_props(2) [of in_array] by (cases in_array) auto
  ultimately show ?thesis using perm by (simp add: get_idxs_def)
qed

text \<open>
  Claim C10 says that the lookup of the unique values of every non-empty array is a
  permutation of its index range. For an array of one element \<open>np.squeeze\<close> collapses
  the result to a zero-dimensional array holding 0, not the one-element array \<open>[0]\<close>.
\<close>

theorem get_idxs_single_collapses: "get_idxs [5] (np_unique [5]) = Inr (Scalar 0)"
  by code_simp

section \<open>Properties of the window extractor\<close>

lemma np_index_nonneg:
  "np_index xs i = Inr v \<Longrightarrow> 0 \<le> i \<Longrightarrow> v = xs ! nat i \<and> nat i < length xs"
  by (auto simp: np_index_def Let_def split: if_splits)

lemma np_take_nonneg:
  "np_take xs ps = Inr vs \<Longrightarrow> \<forall>p \<in> set ps. 0 \<le> p \<Longrightarrow> vs = map (\<lambda>p. xs ! nat p) ps"
proof (induction ps arbitrary: vs)
  case Nil
  then show ?case by simp
next
  case (Cons p ps)
  from Cons.prems(1) obtain v vs' where v: "np_index xs p = Inr v"
    and vs': "np_take xs ps = Inr vs'" and vs: "vs = v # vs'"
    by (auto split: sum.splits)
  from np_index_nonneg [OF v] Cons.prems(2) have "v = xs ! nat p" by simp
  moreover from Cons.IH [OF vs'] Cons.prems(2) have "vs' = map (\<lambda>p. xs ! nat p) ps" by simp
  ultimately show ?case using vs by simp
qed

lemma candidates_bounds:
  assumes "p \<in> set (candidates window_len window_inc nb_obs)" and "0 < window_inc"
  shows "int window_len - 1 \<le> p" and "p < int nb_obs"
proof -
  let ?a = "int window_len - 1" and ?s = "int window_inc" and ?n = "int nb_obs"
  from assms(1) obtain k where k: "k < nat ((?n - ?a + ?s - 1) div ?s)" and p: "p = ?a + int k * ?s"
    by (auto simp: candidates_def py_range_def)
  from p show "?a \<le> p" by simp
  from k have "int k < (?n - ?a + ?s - 1) div ?s" by linarith
  then have "int k + 1 \<le> (?n - ?a + ?s - 1) div ?s" by simp
  then have "(int k + 1) * ?s \<le> ((?n - ?a + ?s - 1) div ?s) * ?s"
    using assms(2) by (intro mult_right_mono) simp_all
  also have "\<dots> \<le> ?n - ?a + ?s - 1"
    using div_mult_mod_eq [of "?n - ?a + ?s - 1" ?s] pos_mod_sign [of ?s "?n - ?a + ?s - 1"]
      assms(2) by linarith
  finally show "p < ?n" using p by (simp add: algebra_simps)
qed

lemma candidates_form:
  "candidates window_len window_inc nb_obs =
     map (\<lambda>k. int window_len - 1 + int k * int window_inc)
       [0..<length (candidates window_len window_inc nb_obs)]"
  by (simp add: candidates_def py_range_def)

lemma candidates_complete:
  assumes "0 < window_inc" and "int window_len - 1 + int k * int window_inc < int nb_obs"
  shows "int window_len - 1 + int k * int window_inc \<in> set (candidates window_len window_inc nb_obs)"
proof -
  let ?a = "int window_len - 1" and ?s = "int window_inc" and ?n = "int nb_obs"
  from assms(2) have "(int k + 1) * ?s \<le> ?n - ?a + ?s - 1" by (simp add: algebra_simps)
  then have "((int k + 1) * ?s) div ?s \<le> (?n - ?a + ?s - 1) div ?s"
    using assms(1) by (intro zdiv_mono1) simp_all
  with assms(1) have "int k + 1 \<le> (?n - ?a + ?s - 1) div ?s" by simp
  then have "k < nat ((?n - ?a + ?s - 1) div ?s)" by linarith
  then show ?thesis by (auto simp: candidates_def py_range_def)
qed

lemma candidates_sorted:
  "0 < window_inc \<Longrightarrow> sorted_wrt (<) (candidates window_len window_inc nb_obs)"
  by (simp add: candidates_def py_range_def sorted_wrt_map sorted_wrt_upt)

lemma map_nth_where_eq:
  "map (\<lambda>i. ps ! i) (np_where_eq (map g ps) v) = filter (\<lambda>p. g p = v) ps"
proof -
  have "filter (\<lambda>i. map g ps ! i = v) [0..<length ps] = filter (\<lambda>i. g (ps ! i) = v) [0..<length ps]"
    by (intro filter_cong) simp_all
  then have "map (\<lambda>i. ps ! i) (np_where_eq (map g ps) v) =
             map (\<lambda>i. ps ! i) (filter ((\<lambda>p. g p = v) \<circ> (\<lambda>i. ps ! i)) [0..<length ps])"
    by (simp add: np_where_eq_def comp_def)
  also have "\<dots> = filter (\<lambda>p. g p = v) (map (\<lambda>i. ps ! i) [0..<length ps])"
    by (simp only: filter_map)
  finally show ?thesis by (simp add: map_nth)
qed

lemma map_nth_concat_where_eq:
  "map (\<lambda>i. ps ! i) (concat (map (np_where_eq (map g ps)) vs)) =
   concat (map (\<lambda>v. filter (\<lambda>p. g p = v) ps) vs)"
  by (simp add: map_concat comp_def map_nth_where_eq)

lemma np_where_eq_bound: "i \<in> set (np_where_eq xs v) \<Longrightarrow> i < length xs"
  by (simp add: np_where_eq_def)

lemma get_idxs_VecD:
  "get_idxs xs vs = Inr (Vec ts) \<Longrightarrow> ts = concat (map (np_where_eq xs) vs)"
  by (auto simp: get_idxs_def dest: np_squeeze_VecD split: if_splits)

lemma windows_loop_nonneg:
  "windows_loop L e movements repetitons targets = Inr (X, Y, R) \<Longrightarrow>
   \<forall>p \<in> set targets. 0 \<le> p \<Longrightarrow>
   X = map (\<lambda>p. np_slice e (p - (int L - 1)) (p + 1)) targets \<and>
   Y = map (\<lambda>p. to_int8 (movements ! nat p)) targets \<and>
   R = map (\<lambda>p. to_int8 (repetitons ! nat p)) targets"
proof (induction targets arbitrary: X Y R)
  case Nil
  then show ?case by simp
next
  case (Cons p targets)
  from Cons.prems(1) obtain y r X' Y' R' where
    y: "np_index movements p = Inr y" and r: "np_index repetitons p = Inr r"
    and rest: "windows_loop L e movements repetitons targets = Inr (X', Y', R')"
    and res: "X = np_slice e (p - (int L - 1)) (p + 1) # X'" "Y = to_int8 y # Y'"
      "R = to_int8 r # R'"
    by (auto simp: Let_def split: sum.splits prod.splits)
  from Cons.prems(2) have p: "0 \<le> p" and ps: "\<forall>p \<in> set targets. 0 \<le> p" by simp_all
  from np_index_nonneg [OF y p] np_index_nonneg [OF r p]
  have "y = movements ! nat p" and "r = repetitons ! nat p" by simp_all
  with Cons.IH [OF rest ps] res show ?case by simp
qed

lemma np_slice_window:
  assumes "1 \<le> L" and "int L - 1 \<le> p" and "p < int (length e)"
  shows "np_slice e (p - (int L - 1)) (p + 1) = take L (drop (nat p + 1 - L) e)"
    and "length (np_slice e (p - (int L - 1)) (p + 1)) = L"
proof -
  from assms have lo: "slice_bound (length e) (p - (int L - 1)) = nat p + 1 - L"
    by (auto simp: slice_bound_def)
  from assms have hi: "slice_bound (length e) (p + 1) = nat p + 1"
    by (auto simp: slice_bound_def)
  from assms have d: "nat p + 1 - (nat p + 1 - L) = L" by linarith
  show "np_slice e (p - (int L - 1)) (p + 1) = take L (drop (nat p + 1 - L) e)"
    by (simp only: np_slice_def Let_def lo hi d)
  from assms have "L \<le> length e - (nat p + 1 - L)" by linarith
  then show "length (np_slice e (p - (int L - 1)) (p + 1)) = L"
    by (simp only: np_slice_def Let_def lo hi d) simp
qed

lemma select_moves_result:
  assumes "select_moves movements targets which_moves = Inr targets'"
    and "\<forall>p \<in> set targets. 0 \<le> p"
  shows "targets' =
           (case which_moves of
              None \<Rightarrow> targets
            | Some moves \<Rightarrow> concat (map (\<lambda>m. filter (\<lambda>p. movements ! nat p = m) targets) moves))"
proof (cases which_moves)
  case None
  with assms(1) show ?thesis by (simp add: select_moves_def)
next
  case (Some moves)
  with assms(1) obtain labels mt where
    labels: "np_take movements targets = Inr labels"
    and mt: "get_idxs labels moves = Inr (Vec mt)"
    and res: "targets' = map (\<lambda>t. targets ! t) mt"
    by (auto simp: select_moves_def split: sum.splits idx_array.splits)
  from np_take_nonneg [OF labels assms(2)]
  have l: "labels = map (\<lambda>p. movements ! nat p) targets" .
  from get_idxs_VecD [OF mt] have "mt = concat (map (np_where_eq labels) moves)" .
  with res l have "targets' = concat (map (\<lambda>m. filter (\<lambda>p. movements ! nat p = m) targets) moves)"
    by (simp only: map_nth_concat_where_eq)
  with Some show ?thesis by simp
qed

lemma get_windows_ends:
  assumes ret: "get_windows which_reps L S e movements repetitons which_moves = Inr (X, Y, R)"
    and L: "1 \<le> L"
  shows "0 < S"
    and "X = map (\<lambda>p. np_slice e (p - (int L - 1)) (p + 1))
               (window_ends which_reps L S (length e) movements repetitons which_moves)"
    and "Y = map (\<lambda>p. to_int8 (movements ! nat p))
               (window_ends which_reps L S (length e) movements repetitons which_moves)"
    and "R = map (\<lambda>p. to_int8 (repetitons ! nat p))
               (window_ends which_reps L S (length e) movements repetitons which_moves)"
proof -
  define cand where "cand = candidates L S (length e)"
  define by_rep where
    "by_rep = concat (map (\<lambda>r. filter (\<lambda>p. repetitons ! nat p = r) cand) which_reps)"
  from ret show S: "0 < S" by (auto simp: get_windows_def split: if_splits)
  from ret S obtain labels ts targets where
    labels: "np_take repetitons cand = Inr labels"
    and ts: "get_idxs labels which_reps = Inr (Vec ts)"
    and sel: "select_moves movements (map (\<lambda>t. (int L - 1) + int t * int S) ts) which_moves =
                Inr targets"
    and loop: "windows_loop L e movements repetitons targets = Inr (X, Y, R)"
    by (auto simp: get_windows_def Let_def cand_def candidates_def
             split: if_splits sum.splits idx_array.splits)
  have nonneg: "\<forall>p \<in> set cand. 0 \<le> p"
    using candidates_bounds(1) [of _ L S "length e"] S L unfolding cand_def by fastforce
  from np_take_nonneg [OF labels nonneg]
  have l: "labels = map (\<lambda>p. repetitons ! nat p) cand" .
  from get_idxs_VecD [OF ts] have ts': "ts = concat (map (np_where_eq labels) which_reps)" .
  have "\<forall>t \<in> set ts. t < length cand"
    unfolding ts' using np_where_eq_bound [of _ labels] l by auto
  moreover have "cand ! t = (int L - 1) + int t * int S" if "t < length cand" for t
    using that candidates_form [of L S "length e"] unfolding cand_def
    by (metis (no_types, lifting) add.left_neutral length_map nth_map nth_upt)
  ultimately have "map (\<lambda>t. (int L - 1) + int t * int S) ts = map (\<lambda>t. cand ! t) ts"
    by (intro map_cong) simp_all
  also have "\<dots> = by_rep"
    unfolding ts' l by_rep_def by (rule map_nth_concat_where_eq)
  finally have targets0: "map (\<lambda>t. (int L - 1) + int t * int S) ts = by_rep" .
  have nonneg': "\<forall>p \<in> set by_rep. 0 \<le> p"
    using nonneg by (auto simp: by_rep_def)
  from select_moves_result [OF sel [unfolded targets0] nonneg']
  have targets: "targets = window_ends which_reps L S (length e) movements repetitons which_moves"
    unfolding window_ends_def Let_def by_rep_def cand_def by (cases which_moves) simp_all
  have "\<forall>p \<in> set targets. 0 \<le> p"
    using nonneg' select_moves_result [OF sel [unfolded targets0] nonneg']
    by (auto split: option.splits)
  from windows_loop_nonneg [OF loop this] targets
  show "X = map (\<lambda>p. np_slice e (p - (int L - 1)) (p + 1))
               (window_ends which_reps L S (length e) movements repetitons which_moves)"
    and "Y = map (\<lambda>p. to_int8 (movements ! nat p))
               (window_ends which_reps L S (length e) movements repetitons which_moves)"
    and "R = map (\<lambda>p. to_int8 (repetitons ! nat p))
               (window_ends which_reps L S (length e) movements repetitons which_moves)"
    by simp_all
qed

lemma window_ends_subset:
  "set (window_ends which_reps L S n movements repetitons which_moves) \<subseteq> set (candidates L S n)"
  by (auto simp: window_ends_def Let_def split: option.splits)

lemma window_ends_retained:
  assumes "distinct which_reps"
    and "case which_moves of None \<Rightarrow> True | Some moves \<Rightarrow> distinct moves"
  shows "mset (window_ends which_reps L S n movements repetitons which_moves) =
         mset (filter (retained which_reps movements repetitons which_moves) (candidates L S n))"
proof -
  define cand where "cand = candidates L S n"
  define by_rep where
    "by_rep = concat (map (\<lambda>r. filter (\<lambda>p. repetitons ! nat p = r) cand) which_reps)"
  have rep: "mset by_rep = mset (filter (\<lambda>p. repetitons ! nat p \<in> set which_reps) cand)"
    unfolding by_rep_def using assms(1) by (rule mset_concat_filter_eq)
  show ?thesis
  proof (cases which_moves)
    case None
    with rep show ?thesis
      by (simp add: window_ends_def Let_def retained_def by_rep_def cand_def)
  next
    case (Some moves)
    with assms(2) have "distinct moves" by simp
    then have "mset (concat (map (\<lambda>m. filter (\<lambda>p. movements ! nat p = m) by_rep) moves)) =
               mset (filter (\<lambda>p. movements ! nat p \<in> set moves) by_rep)"
      by (rule mset_concat_filter_eq)
    also have "\<dots> = filter_mset (\<lambda>p. movements ! nat p \<in> set moves) (mset by_rep)"
      by simp
    also have "\<dots> = mset (filter (\<lambda>p. repetitons ! nat p \<in> set which_reps \<and>
                                      movements ! nat p \<in> set moves) cand)"
      unfolding rep by (simp add: filter_filter_mset conj_commute)
    finally show ?thesis using Some
      by (simp add: window_ends_def Let_def retained_def by_rep_def cand_def)
  qed
qed

text \<open>
  Claim C6, amended. Whenever \<open>get_windows\<close> returns, for a window length of at least
  one and filter sets without repeated values, it returns exactly one window per retained
  end position: the candidates are the indices \<open>L - 1 + k * S\<close> below the signal
  length, ascending; a candidate is retained iff its repetition label is in
  \<open>which_reps\<close> and, when \<open>which_moves\<close> is given, its movement label is in
  \<open>which_moves\<close>; every window holds the \<open>L\<close> samples up to and including its end
  sample, with the two labels of that sample. The windows come grouped by movement in the
  order of \<open>which_moves\<close>, within a movement by repetition in the order of
  \<open>which_reps\<close>, and in ascending end position within a repetition.
\<close>

theorem get_windows_grouped:
  assumes ret: "get_windows which_reps L S e movements repetitons which_moves = Inr (X, Y, R)"
    and L: "1 \<le> L" and reps: "distinct which_reps"
    and moves: "case which_moves of None \<Rightarrow> True | Some ms \<Rightarrow> distinct ms"
  shows "X = map (\<lambda>p. take L (drop (nat p + 1 - L) e))
                 (window_ends which_reps L S (length e) movements repetitons which_moves) \<and>
         Y = map (\<lambda>p. to_int8 (movements ! nat p))
                 (window_ends which_reps L S (length e) movements repetitons which_moves) \<and>
         R = map (\<lambda>p. to_int8 (repetitons ! nat p))
                 (window_ends which_reps L S (length e) movements repetitons which_moves) \<and>
         list_all (\<lambda>w. length w = L) X \<and>
         mset (window_ends which_reps L S (length e) movements repetitons which_moves) =
           mset (filter (retained which_reps movements repetitons which_moves)
                   (candidates L S (length e))) \<and>
         sorted_wrt (<) (candidates L S (length e)) \<and>
         (\<forall>p. p \<in> set (candidates L S (length e)) \<longleftrightarrow>
              (\<exists>k. p = int L - 1 + int k * int S \<and> p < int (length e)))"
proof -
  let ?ends = "window_ends which_reps L S (length e) movements repetitons which_moves"
  note res = get_windows_ends [OF ret L]
  have S: "0 < S" by (rule res(1))
  have inside: "int L - 1 \<le> p \<and> p < int (length e)" if "p \<in> set ?ends" for p
    using that window_ends_subset [of which_reps L S "length e" movements repetitons which_moves]
      candidates_bounds [of p L S "length e"] S by blast
  have win: "map (\<lambda>p. np_slice e (p - (int L - 1)) (p + 1)) ?ends =
             map (\<lambda>p. take L (drop (nat p + 1 - L) e)) ?ends"
    using inside L by (intro map_cong) (simp_all add: np_slice_window(1))
  have X: "X = map (\<lambda>p. take L (drop (nat p + 1 - L) e)) ?ends"
    using res(2) win by simp
  have lens: "list_all (\<lambda>w. length w = L) X"
    unfolding res(2) using inside L by (simp add: list_all_iff np_slice_window(2))
  have cand: "p \<in> set (candidates L S (length e)) \<longleftrightarrow>
              (\<exists>k. p = int L - 1 + int k * int S \<and> p < int (length e))" for p
  proof
    assume p: "p \<in> set (candidates L S (length e))"
    then obtain k where "p = int L - 1 + int k * int S"
      by (auto simp: candidates_def py_range_def)
    with candidates_bounds(2) [OF p S] show "\<exists>k. p = int L - 1 + int k * int S \<and> p < int (length e)"
      by blast
  next
    assume "\<exists>k. p = int L - 1 + int k * int S \<and> p < int (length e)"
    with candidates_complete [OF S] show "p \<in> set (candidates L S (length e))" by blast
  qed
  from X res(3,4) lens window_ends_retained [OF reps moves] candidates_sorted [OF S] cand
  show ?thesis by blast
qed

text \<open>The example of the specification: window length 5, increment 2, twelve samples
  of one repetition and one movement. Each sample is its own index here.\<close>

lemma get_windows_spec_example:
  "get_windows [1] 5 2 [0, 1, 2, 3, 4, 5, 6, 7, 8, 9, 10, 11 :: nat]
     [7, 7, 7, 7, 7, 7, 7, 7, 7, 7, 7, 7] [1, 1, 1, 1, 1, 1, 1, 1, 1, 1, 1, 1] None =
   Inr ([[0, 1, 2, 3, 4], [2, 3, 4, 5, 6], [4, 5, 6, 7, 8], [6, 7, 8, 9, 10]],
        [7, 7, 7, 7], [1, 1, 1, 1])"
  by code_simp

lemma window_ends_spec_example:
  "window_ends [1] 5 2 12 [7, 7, 7, 7, 7, 7, 7, 7, 7, 7, 7, 7]
     [1, 1, 1, 1, 1, 1, 1, 1, 1, 1, 1, 1] None = [4, 6, 8, 10]"
  by code_simp

theorem get_windows_grouped_witness:
  "get_windows [1] 5 2 [0, 1, 2, 3, 4, 5, 6, 7, 8, 9, 10, 11 :: nat]
     [7, 7, 7, 7, 7, 7, 7, 7, 7, 7, 7, 7] [1, 1, 1, 1, 1, 1, 1, 1, 1, 1, 1, 1] None =
   Inr ([[0, 1, 2, 3, 4], [2, 3, 4, 5, 6], [4, 5, 6, 7, 8], [6, 7, 8, 9, 10]],
        [7, 7, 7, 7], [1, 1, 1, 1]) \<and>
   (1::nat) \<le> 5 \<and> distinct [1 :: int] \<and>
   mset [4, 6, 8, 10] =
     mset (filter (retained [1] [7, 7, 7, 7, 7, 7, 7, 7, 7, 7, 7, 7]
                     [1, 1, 1, 1, 1, 1, 1, 1, 1, 1, 1, 1] None) (candidates 5 2 12))"
proof -
  have L: "(1::nat) \<le> 5" and d: "distinct [1 :: int]"
    and m: "case None :: int list option of None \<Rightarrow> True | Some ms \<Rightarrow> distinct ms"
    by simp_all
  have len: "length [0, 1, 2, 3, 4, 5, 6, 7, 8, 9, 10, 11 :: nat] = 12" by simp
  from get_windows_grouped [OF get_windows_spec_example L d m]
  have "mset (window_ends [1] 5 2 (length [0, 1, 2, 3, 4, 5, 6, 7, 8, 9, 10, 11 :: nat])
                [7, 7, 7, 7, 7, 7, 7, 7, 7, 7, 7, 7] [1, 1, 1, 1, 1, 1, 1, 1, 1, 1, 1, 1] None) =
        mset (filter (retained [1] [7, 7, 7, 7, 7, 7, 7, 7, 7, 7, 7, 7]
                     [1, 1, 1, 1, 1, 1, 1, 1, 1, 1, 1, 1] None)
               (candidates 5 2 (length [0, 1, 2, 3, 4, 5, 6, 7, 8, 9, 10, 11 :: nat])))"
    by blast
  then have "mset [4, 6, 8, 10] =
     mset (filter (retained [1] [7, 7, 7, 7, 7, 7, 7, 7, 7, 7, 7, 7]
                     [1, 1, 1, 1, 1, 1, 1, 1, 1, 1, 1, 1] None) (candidates 5 2 12))"
    by (simp only: len window_ends_spec_example)
  with get_windows_spec_example L d show ?thesis by blast
qed

text \<open>Two movements of two repetitions each, as the segmenter labels them: the
  windows of repetition 1 of both movements come before those of repetition 2.\<close>

lemma get_windows_two_movements:
  "get_windows [1, 2] 2 1 [0, 1, 2, 3, 4, 5, 6, 7 :: nat]
     [1, 1, 1, 1, 2, 2, 2, 2] [1, 1, 2, 2, 1, 1, 2, 2] None =
   Inr ([[0, 1], [3, 4], [4, 5], [1, 2], [2, 3], [5, 6], [6, 7]],
        [1, 2, 2, 1, 1, 2, 2], [1, 1, 1, 2, 2, 2, 2])"
  by code_simp

theorem get_windows_order_counterexample:
  "get_windows [1, 2] 2 1 [0, 1, 2, 3, 4, 5, 6, 7 :: nat]
     [1, 1, 1, 1, 2, 2, 2, 2] [1, 1, 2, 2, 1, 1, 2, 2] None =
   Inr ([[0, 1], [3, 4], [4, 5], [1, 2], [2, 3], [5, 6], [6, 7]],
        [1, 2, 2, 1, 1, 2, 2], [1, 1, 1, 2, 2, 2, 2]) \<and>
   window_ends [1, 2] 2 1 8 [1, 1, 1, 1, 2, 2, 2, 2] [1, 1, 2, 2, 1, 1, 2, 2] None =
     [1, 4, 5, 2, 3, 6, 7] \<and>
   \<not> sorted [1, 4, 5, 2, 3, 6, 7 :: int]"
proof -
  have "window_ends [1, 2] 2 1 8 [1, 1, 1, 1, 2, 2, 2, 2] [1, 1, 2, 2, 1, 1, 2, 2] None =
     [1, 4, 5, 2, 3, 6, 7]"
    by code_simp
  with get_windows_two_movements show ?thesis by simp
qed

text \<open>One retained end position: \<open>targets\<close> is zero-dimensional and the call
  raises.\<close>

lemma get_windows_single_raises:
  "get_windows [1] 5 1 [0, 1, 2, 3, 4 :: nat] [7, 7, 7, 7, 7] [1, 1, 1, 1, 1] None =
   Inl IndexError"
  by code_simp

section \<open>Properties of the split generators\<close>

lemma combinations_length: "c \<in> set (combinations xs k) \<Longrightarrow> length c = k"
  by (induction xs k arbitrary: c rule: combinations.induct) auto

lemma combinations_subset: "c \<in> set (combinations xs k) \<Longrightarrow> set c \<subseteq> set xs"
  by (induction xs k arbitrary: c rule: combinations.induct) fastforce+

lemma combinations_distinct:
  "c \<in> set (combinations xs k) \<Longrightarrow> distinct xs \<Longrightarrow> distinct c"
proof (induction xs k arbitrary: c rule: combinations.induct)
  case (3 x xs k)
  from "3.prems"(1) consider c' where "c = x # c'" and "c' \<in> set (combinations xs k)"
    | "c \<in> set (combinations xs (Suc k))" by auto
  then show ?case
  proof cases
    case 1
    with "3.prems"(2) combinations_subset [of c' xs k] "3.IH"(1) [of c'] show ?thesis by auto
  next
    case 2
    with "3.prems"(2) "3.IH"(2) show ?thesis by simp
  qed
qed simp_all

lemma fold_max_ge_init: "(a::nat) \<le> fold max ys a"
  by (induction ys arbitrary: a) (auto intro: order_trans [OF max.cobounded2])

lemma fold_max_ge_elem: "y \<in> set ys \<Longrightarrow> (y::nat) \<le> fold max ys a"
proof (induction ys arbitrary: a)
  case Nil
  then show ?case by simp
next
  case (Cons z ys)
  show ?case
  proof (cases "y = z")
    case True
    have "y \<le> max y a" by simp
    also have "\<dots> \<le> fold max ys (max y a)" by (rule fold_max_ge_init)
    finally show ?thesis using True by simp
  next
    case False
    with Cons.prems have "y \<in> set ys" by simp
    then show ?thesis using Cons.IH by simp
  qed
qed

lemma count_le_max_count: "count_list xs v \<le> max_count xs"
proof (cases "v \<in> set xs")
  case True
  then have "count_list xs v \<in> set (map (count_list xs) (remdups xs))" by simp
  then show ?thesis unfolding max_count_def by (rule fold_max_ge_elem)
next
  case False
  then show ?thesis by (simp add: count_list_0_iff)
qed

lemma set_np_delete: "set (np_delete rows i) \<subseteq> set rows"
  by (auto simp: np_delete_def dest: in_set_takeD in_set_dropD)

lemma restart_inv:
  assumes "set all_combos_copy \<subseteq> set combos" and "base_ok nb_splits combos base"
  shows "split_inv nb_splits nb_test combos (restart nb_splits nb_test all_combos_copy base)"
    and "s_cur_split (restart nb_splits nb_test all_combos_copy base) < nb_splits"
  using assms by (auto simp: split_inv_def restart_def base_ok_def split: option.splits)

lemma before_draw_inv:
  assumes "set all_combos_copy \<subseteq> set combos" and "base_ok nb_splits combos base"
    and "split_inv nb_splits nb_test combos st" and "s_cur_split st < nb_splits"
  shows "split_inv nb_splits nb_test combos (before_draw nb_splits nb_test all_combos_copy base st)"
    and "s_cur_split (before_draw nb_splits nb_test all_combos_copy base st) < nb_splits"
  using assms restart_inv [OF assms(1,2), of nb_test] by (auto simp: before_draw_def)

lemma after_draw_inv:
  assumes inv: "split_inv nb_splits nb_test combos st" and cur: "s_cur_split st < nb_splits"
    and pool: "s_all_combos st \<noteq> []"
  shows "split_inv nb_splits nb_test combos (after_draw nb_test d st)"
proof -
  define j where "j = d mod length (s_all_combos st)"
  define T where "T = (s_test_reps st)[s_cur_split st := s_all_combos st ! j]"
  from pool have "j < length (s_all_combos st)" by (simp add: j_def)
  then have row: "s_all_combos st ! j \<in> set combos"
    using inv by (auto simp: split_inv_def)
  from inv have len: "length (s_test_reps st) = nb_splits"
    and rows: "\<forall>i < s_cur_split st. s_test_reps st ! i \<in> set combos"
    and sub: "set (s_all_combos st) \<subseteq> set combos"
    by (simp_all add: split_inv_def)
  have sub': "set (np_delete (s_all_combos st) j) \<subseteq> set combos"
    using set_np_delete [of "s_all_combos st" j] sub by blast
  show ?thesis
  proof (cases "max_count (concat (take (s_cur_split st + 1) T)) > nb_test")
    case True
    then have "after_draw nb_test d st =
        st\<lparr>s_all_combos := np_delete (s_all_combos st) j,
           s_test_reps := T[s_cur_split st := replicate nb_test 0],
           s_reset_counter := s_reset_counter st + 1\<rparr>"
      by (simp add: after_draw_def Let_def j_def T_def)
    with len rows sub' cur show ?thesis
      by (simp add: split_inv_def T_def)
  next
    case False
    then have eq: "after_draw nb_test d st =
        st\<lparr>s_all_combos := np_delete (s_all_combos st) j, s_test_reps := T,
           s_cur_split := s_cur_split st + 1, s_reset_counter := 0\<rparr>"
      by (simp add: after_draw_def Let_def j_def T_def)
    have "T ! i \<in> set combos" if "i < s_cur_split st + 1" for i
    proof (cases "i = s_cur_split st")
      case True
      with cur len row show ?thesis by (simp add: T_def)
    next
      case False
      with that rows show ?thesis by (simp add: T_def)
    qed
    moreover have "count_list (concat T) v \<le> nb_test" if "s_cur_split st + 1 = nb_splits" for v
    proof -
      from that len have "take (s_cur_split st + 1) T = T" by (simp add: T_def)
      with False have "max_count (concat T) \<le> nb_test" by simp
      with count_le_max_count [of "concat T" v] show ?thesis by simp
    qed
    ultimately show ?thesis using len sub' cur
      by (simp add: eq split_inv_def T_def)
  qed
qed

lemma balanced_loop_inv:
  assumes "set all_combos_copy \<subseteq> set combos" and "base_ok nb_splits combos base"
  shows "balanced_loop nb_splits nb_test all_combos_copy base draws st = Some (Inr T) \<Longrightarrow>
         split_inv nb_splits nb_test combos st \<Longrightarrow>
         length T = nb_splits \<and> (\<forall>i < nb_splits. T ! i \<in> set combos) \<and>
         (\<forall>v. count_list (concat T) v \<le> nb_test)"
proof (induction draws arbitrary: st)
  case Nil
  then show ?case by (auto simp: split_inv_def split: if_splits)
next
  case (Cons d draws)
  show ?case
  proof (cases "s_cur_split st < nb_splits")
    case False
    with Cons.prems show ?thesis by (auto simp: split_inv_def)
  next
    case True
    define st1 where "st1 = before_draw nb_splits nb_test all_combos_copy base st"
    from before_draw_inv [OF assms Cons.prems(2) True]
    have inv1: "split_inv nb_splits nb_test combos st1" and cur1: "s_cur_split st1 < nb_splits"
      by (simp_all add: st1_def)
    from Cons.prems(1) True have pool: "s_all_combos st1 \<noteq> []"
      and rest: "balanced_loop nb_splits nb_test all_combos_copy base draws
                   (after_draw nb_test d st1) = Some (Inr T)"
      by (auto simp: st1_def split: if_splits)
    from after_draw_inv [OF inv1 cur1 pool]
    have "split_inv nb_splits nb_test combos (after_draw nb_test d st1)" .
    with rest show ?thesis by (rule Cons.IH)
  qed
qed

lemma first_index_mem: "first_index xs y = Some j \<Longrightarrow> y \<in> set xs"
  by (induction xs arbitrary: j) (auto split: if_splits)

lemma balanced_counts:
  assumes dist: "distinct ids" and len: "length T = length ids"
    and rows: "\<forall>row \<in> set T. length row = k \<and> set row \<subseteq> set ids"
    and le: "\<forall>v. count_list (concat T) v \<le> k"
  shows "\<forall>v \<in> set ids. count_list (concat T) v = k"
proof (rule ccontr)
  assume "\<not> (\<forall>v \<in> set ids. count_list (concat T) v = k)"
  then obtain v where v: "v \<in> set ids" and "count_list (concat T) v \<noteq> k" by blast
  with le have lt: "count_list (concat T) v < k" by (simp add: le_neq_implies_less)
  have "map length T = map (\<lambda>_. k) T" using rows by (intro map_cong) simp_all
  then have "length (concat T) = length ids * k"
    by (simp add: length_concat sum_list_triv len del: map_eq_conv)
  moreover have "set (concat T) \<subseteq> set ids" using rows by auto
  then have "sum (count_list (concat T)) (set ids) = length (concat T)"
    by (rule sum_count_set) simp
  moreover have "sum (count_list (concat T)) (set ids) < sum (\<lambda>_. k) (set ids)"
    using le v lt by (intro sum_strict_mono_ex1) auto
  moreover have "sum (\<lambda>_. k) (set ids) = length ids * k"
    using dist by (simp add: distinct_card)
  ultimately show False by simp
qed

lemma length_np_setdiff1d:
  assumes "distinct ids" and "distinct row" and "set row \<subseteq> set ids"
  shows "length (np_setdiff1d ids row) = length ids - length row"
    and "set (np_setdiff1d ids row) = set ids - set row"
proof -
  show s: "set (np_setdiff1d ids row) = set ids - set row"
    by (auto simp: np_setdiff1d_def np_unique_def)
  have "distinct (np_setdiff1d ids row)"
    by (simp add: np_setdiff1d_def np_unique_def)
  then have "length (np_setdiff1d ids row) = card (set ids - set row)"
    using s by (metis distinct_card)
  also have "\<dots> = card (set ids) - card (set row)"
    using assms(3) by (intro card_Diff_subset) simp_all
  finally show "length (np_setdiff1d ids row) = length ids - length row"
    using assms(1,2) by (simp add: distinct_card)
qed

lemma train_rows_result:
  "train_rows ids w T = Inr Tr \<Longrightarrow>
   length Tr = length T \<and>
   (\<forall>i < length T. broadcast_row w (np_setdiff1d ids (T ! i)) = Inr (Tr ! i))"
proof (induction T arbitrary: Tr)
  case Nil
  then show ?case by simp
next
  case (Cons row T)
  from Cons.prems obtain r Tr' where r: "broadcast_row w (np_setdiff1d ids row) = Inr r"
    and Tr': "train_rows ids w T = Inr Tr'" and Tr: "Tr = r # Tr'"
    by (auto split: sum.splits)
  from Cons.IH [OF Tr'] r Tr show ?case by (auto simp: nth_Cons split: nat.splits)
qed

text \<open>
  Claim C2. For distinct repetition ids and \<open>nb_test\<close> smaller than their number,
  whatever the random draws, a returned pair of tables has one fold per repetition id,
  every id is a test member exactly \<open>nb_test\<close> times over all folds, and in every
  fold the train row is the set complement of the test row: the two are disjoint and
  their union is the set of all ids.
\<close>

theorem gen_split_balanced_folds:
  assumes ret: "gen_split_balanced draws rep_ids nb_test base = Some (Inr (train_reps, test_reps))"
    and dist: "distinct rep_ids" and lt: "nb_test < length rep_ids"
  shows "length train_reps = length rep_ids \<and> length test_reps = length rep_ids \<and>
         (\<forall>r \<in> set rep_ids. count_list (concat test_reps) r = nb_test) \<and>
         (\<forall>i < length rep_ids.
            length (test_reps ! i) = nb_test \<and>
            set (train_reps ! i) \<inter> set (test_reps ! i) = {} \<and>
            set (train_reps ! i) \<union> set (test_reps ! i) = set rep_ids \<and>
            train_reps ! i = np_setdiff1d rep_ids (test_reps ! i))"
proof -
  define n where "n = length rep_ids"
  define combos where "combos = combinations rep_ids nb_test"
  from ret lt have k: "0 < nb_test"
    by (auto simp: gen_split_balanced_def Let_def split: if_splits)
  with lt have n2: "1 < n" by (simp add: n_def)
  from ret k lt obtain all_combos row where
    pin: "pin_base n nb_test combos base = Inr (all_combos, row)"
    and loop: "balanced_loop n nb_test all_combos row draws (restart n nb_test all_combos row) =
                 Some (Inr test_reps)"
    and train: "train_rows rep_ids (n - nb_test) test_reps = Inr train_reps"
    by (auto simp: gen_split_balanced_def Let_def n_def combos_def
             split: if_splits sum.splits option.splits prod.splits)
  have sub: "set all_combos \<subseteq> set combos" and ok: "base_ok n combos row"
  proof -
    show "set all_combos \<subseteq> set combos"
      using pin set_np_delete [of combos]
      by (auto simp: pin_base_def split: option.splits if_splits sum.splits)
    show "base_ok n combos row"
      using pin n2
      by (auto simp: pin_base_def base_ok_def dest: first_index_mem
               split: option.splits if_splits sum.splits)
  qed
  from restart_inv(1) [OF sub ok]
  have "split_inv n nb_test combos (restart n nb_test all_combos row)" .
  from balanced_loop_inv [OF sub ok loop this]
  have len: "length test_reps = n" and rows: "\<forall>i < n. test_reps ! i \<in> set combos"
    and le: "\<forall>v. count_list (concat test_reps) v \<le> nb_test"
    by simp_all
  have row_props: "length (test_reps ! i) = nb_test \<and> set (test_reps ! i) \<subseteq> set rep_ids \<and>
                   distinct (test_reps ! i)" if "i < n" for i
    using rows that dist combinations_length [of "test_reps ! i" rep_ids nb_test]
      combinations_subset [of "test_reps ! i" rep_ids nb_test]
      combinations_distinct [of "test_reps ! i" rep_ids nb_test]
    by (simp add: combos_def)
  have "\<forall>row \<in> set test_reps. length row = nb_test \<and> set row \<subseteq> set rep_ids"
  proof
    fix row assume "row \<in> set test_reps"
    then obtain i where "i < n" and "row = test_reps ! i"
      using len by (auto simp: in_set_conv_nth)
    with row_props [of i] show "length row = nb_test \<and> set row \<subseteq> set rep_ids" by simp
  qed
  with dist len le have counts: "\<forall>v \<in> set rep_ids. count_list (concat test_reps) v = nb_test"
    by (intro balanced_counts) (simp_all add: n_def)
  from train_rows_result [OF train] len
  have tlen: "length train_reps = n"
    and trows: "\<forall>i < n. broadcast_row (n - nb_test) (np_setdiff1d rep_ids (test_reps ! i)) =
                  Inr (train_reps ! i)"
    by simp_all
  have fold: "length (test_reps ! i) = nb_test \<and>
            set (train_reps ! i) \<inter> set (test_reps ! i) = {} \<and>
            set (train_reps ! i) \<union> set (test_reps ! i) = set rep_ids \<and>
            train_reps ! i = np_setdiff1d rep_ids (test_reps ! i)" if "i < n" for i
  proof -
    from row_props [OF that] have l: "length (test_reps ! i) = nb_test"
      and s: "set (test_reps ! i) \<subseteq> set rep_ids" and d: "distinct (test_reps ! i)" by simp_all
    from length_np_setdiff1d [OF dist d s] l
    have "length (np_setdiff1d rep_ids (test_reps ! i)) = n - nb_test"
      and sd: "set (np_setdiff1d rep_ids (test_reps ! i)) = set rep_ids - set (test_reps ! i)"
      by (simp_all add: n_def)
    with trows that have "train_reps ! i = np_setdiff1d rep_ids (test_reps ! i)"
      by (auto simp: broadcast_row_def)
    with sd s l show ?thesis by auto
  qed
  from tlen len counts fold show ?thesis unfolding n_def by blast
qed

lemma gen_split_balanced_four:
  "gen_split_balanced [0, 5, 1, 0, 0, 0, 0, 0, 0, 0, 0, 0, 0, 0, 0, 0, 0, 0, 0] [1, 2, 3, 4] 2
     (Some [2, 3]) =
   Some (Inr ([[1, 4], [3, 4], [2, 3], [1, 2]], [[2, 3], [1, 2], [1, 4], [3, 4]]))"
  by code_simp

theorem gen_split_balanced_folds_witness:
  "gen_split_balanced [0, 5, 1, 0, 0, 0, 0, 0, 0, 0, 0, 0, 0, 0, 0, 0, 0, 0, 0] [1, 2, 3, 4] 2
     (Some [2, 3]) =
   Some (Inr ([[1, 4], [3, 4], [2, 3], [1, 2]], [[2, 3], [1, 2], [1, 4], [3, 4]])) \<and>
   distinct [1, 2, 3, 4 :: int] \<and> (2::nat) < length [1, 2, 3, 4 :: int] \<and>
   list_all (\<lambda>r. count_list (concat [[2, 3], [1, 2], [1, 4], [3, 4]]) r = 2) [1, 2, 3, 4 :: int]"
proof -
  have d: "distinct [1, 2, 3, 4 :: int]" and l: "(2::nat) < length [1, 2, 3, 4 :: int]"
    by simp_all
  from gen_split_balanced_folds [OF gen_split_balanced_four d l]
  have "\<forall>r \<in> set [1, 2, 3, 4 :: int]. count_list (concat [[2, 3], [1, 2], [1, 4], [3, 4]]) r = 2"
    by blast
  then show ?thesis using gen_split_balanced_four by (simp add: list_all_iff)
qed

text \<open>
  Claim C7, amended. If \<open>nb_test\<close> is greater than the number of repetition ids, both
  split generators fail with ValueError (the train table would have a negative width),
  whatever the draws, the base and the number of folds.
\<close>

theorem gen_split_nb_test_too_large:
  assumes "length rep_ids < nb_test"
  shows "gen_split_balanced draws rep_ids nb_test base = Some (Inl ValueError) \<and>
         gen_split_rand draws rep_ids nb_test nb_splits base = Some (Inl ValueError)"
  using assms by (simp add: gen_split_balanced_def gen_split_rand_def)

theorem gen_split_nb_test_too_large_witness:
  "length [1, 2 :: int] < 3 \<and>
   gen_split_balanced [] [1, 2] 3 None = Some (Inl ValueError) \<and>
   gen_split_rand [] [1, 2] 3 1 None = Some (Inl ValueError)"
  using gen_split_nb_test_too_large [of "[1, 2]" 3 "[]" None 1] by simp

text \<open>With \<open>nb_test\<close> equal to the number of ids there is one combination, all ids,
  and both generators can return it as a fold with an empty train row.\<close>

theorem gen_split_nb_test_equal_counterexample:
  "length [1, 2 :: int] \<le> 2 \<and>
   gen_split_rand [0] [1, 2] 2 1 None = Some (Inr ([[]], [[1, 2]])) \<and>
   length [1 :: int] \<le> 1 \<and>
   gen_split_balanced [0] [1] 1 None = Some (Inr ([[]], [[1]]))"
  by code_simp

section \<open>Properties of the normalisation\<close>

text \<open>A movement filter that keeps a single training sample leaves \<open>fit\<close> with a
  one-dimensional array.\<close>

lemma train_rows_of_single_move_target:
  "train_rows_of [1, 1] [1] (Some [1, 2]) (Some [1]) = Inl ValueError"
  by code_simp

text \<open>
  Claim C9, amended. \<open>normalise_emg\<close> scales the caller's array in place: the array it
  returns is the caller's array itself, which after the call holds the z-scored samples
  (mean and deviation taken from the training rows only, applied to every row); no other
  array of the store changes.
\<close>

theorem normalise_emg_in_place:
  assumes "normalise_emg h emg_ref reps train_reps movements which_moves = Inr (result, h')"
  shows "result = emg_ref \<and>
         (\<exists>train_targets train.
            train_rows_of reps train_reps movements which_moves = Inr train_targets \<and>
            np_take (h emg_ref) train_targets = Inr train \<and>
            h' emg_ref = standard_scale train (h emg_ref)) \<and>
         (\<forall>a. a \<noteq> emg_ref \<longrightarrow> h' a = h a)"
proof -
  from assms obtain targets where
    t: "train_rows_of reps train_reps movements which_moves = Inr targets"
    by (cases "train_rows_of reps train_reps movements which_moves")
       (simp_all add: normalise_emg_def)
  with assms obtain train where tr: "np_take (h emg_ref) targets = Inr train"
    by (cases "np_take (h emg_ref) targets") (simp_all add: normalise_emg_def)
  from assms have eq: "(if train = [] then Inl ValueError
       else Inr (emg_ref, h(emg_ref := standard_scale train (h emg_ref)))) =
      (Inr (result, h') :: py_error + (addr \<times> heap))"
    by (simp only: normalise_emg_def t tr sum.case)
  then have ne: "train \<noteq> []" by (cases "train = []") simp_all
  from eq have "(emg_ref, h(emg_ref := standard_scale train (h emg_ref))) = (result, h')"
    by (simp only: ne if_False sum.inject)
  then have both: "emg_ref = result \<and> h(emg_ref := standard_scale train (h emg_ref)) = h'"
    by (rule iffD1 [OF prod.inject])
  from both have "emg_ref = result" by (rule conjunct1)
  then have res: "result = emg_ref" by (rule sym)
  from both have "h(emg_ref := standard_scale train (h emg_ref)) = h'" by (rule conjunct2)
  then have h': "h' = h(emg_ref := standard_scale train (h emg_ref))" by (rule sym)
  from h' have "h' emg_ref = standard_scale train (h emg_ref)"
    and "\<forall>a. a \<noteq> emg_ref \<longrightarrow> h' a = h a" by simp_all
  with res t tr show ?thesis by blast
qed

text \<open>Two samples 1 and 3 of one channel, both training rows: mean 2, deviation 1.\<close>

lemma standard_scale_two: "standard_scale [[1], [3]] [[1], [3]] = [[- 1], [1]]"
  by (simp add: standard_scale_def scale_of_def mean_def column_def power2_eq_square)

lemma normalise_emg_two_rows:
  "normalise_emg (empty_heap(0 := [[1], [3]])) 0 [1, 1] [1] None None =
   Inr (0, (empty_heap(0 := [[1], [3]]))(0 := [[- 1], [1]]))"
proof -
  have "get_idxs [1, 1 :: int] [1] = Inr (Vec [0, 1])"
    by code_simp
  moreover have "np_take [[1], [3 :: real]] [0, 1] = Inr [[1], [3]]"
    by (simp add: np_index_def)
  ultimately show ?thesis
    by (simp add: normalise_emg_def train_rows_of_def standard_scale_two)
qed

theorem normalise_emg_in_place_witness:
  "normalise_emg (empty_heap(0 := [[1], [3]])) 0 [1, 1] [1] None None =
     Inr (0, (empty_heap(0 := [[1], [3]]))(0 := [[- 1], [1]])) \<and>
   ((empty_heap(0 := [[1], [3]]))(0 := [[- 1], [1]])) 1 = (empty_heap(0 := [[1], [3]])) 1"
  using normalise_emg_in_place [OF normalise_emg_two_rows] normalise_emg_two_rows by simp

theorem normalise_emg_mutates_counterexample:
  "normalise_emg (empty_heap(0 := [[1], [3]])) 0 [1, 1] [1] None None =
     Inr (0, (empty_heap(0 := [[1], [3]]))(0 := [[- 1], [1]])) \<and>
   (empty_heap(0 := [[1], [3]])) 0 = [[1], [3]] \<and>
   ((empty_heap(0 := [[1], [3]]))(0 := [[- 1], [1]])) 0 = [[- 1], [1]] \<and>
   [[- 1], [1]] \<noteq> [[1], [3 :: real]]"
  using normalise_emg_two_rows by simp

end
